theory Spec2Isabelle
  imports
    Complex_Main
    "HOL-Library.AList"
    "HOL-Library.Multiset"
    "HOL-Library.Char_ord"
    "HOL-Library.List_Lexorder"
begin

section \<open>The automaton predictors of cam/sgnmt/predictors/automata.py\<close>

text \<open>
  The three classes of the module (\<open>FstPredictor\<close>, \<open>NondeterministicFstPredictor\<close>,
  \<open>RtnPredictor\<close>) are embedded method by method. Conventions:
  \<^item> Python floats are modelled as \<open>real\<close>; \<open>utils.NEG_INF\<close> only occurs as the default of
    \<open>dict.get\<close> on the left of \<open><\<close>, which is modelled by the case "key absent: the
    comparison holds";
  \<^item> a Python \<open>dict\<close> is an association list with distinct keys, updated with
    \<open>AList.update\<close> (an existing key keeps its place, a new key goes to the end);
    the order in which a dictionary is iterated is not fixed by Python 2, and the
    properties below that concern a frontier are stated on its set of pairs;
  \<^item> a raised exception is \<open>Inl e\<close>, a normal return \<open>Inr v\<close>; a \<open>while\<close> loop that
    may run forever returns \<open>None\<close> when it does;
  \<^item> Python's \<open>None\<close> in an attribute or a return value is \<open>None\<close> of an option type;
    the module is Python 2 code (its sibling output.py uses \<open>xrange\<close>), where
    \<open>None < 0\<close> is true;
  \<^item> list objects that are shared by reference (the frontier of the nondeterministic
    predictor, the history of the RTN predictor) live in an explicit store.
\<close>

subsection \<open>Values shared by the three predictors\<close>

datatype error = ValueError | IndexError | AttributeError | KeyError

datatype level = DEBUG | WARNING | ERROR

record arc =
  ilabel :: int
  olabel :: int
  weight :: real
  nextstate :: int

text \<open>An OpenFST automaton, seen through the two observers the module uses:
  \<open>start()\<close> and \<open>arcs(state)\<close>.\<close>

record Fst =
  start :: int
  arcs :: "int \<Rightarrow> arc list"

text \<open>The symbol ids of \<open>cam.sgnmt.utils\<close>; they depend on the indexing scheme chosen at
  run time, so they are a parameter of every method that reads them.\<close>

record utils =
  GO_ID :: int
  EOS_ID :: int
  UNK_ID :: int

definition EPS_ID :: int where
  "EPS_ID = 0"

text \<open>\<open>utils.w2f\<close> turns an OpenFST weight object into a float; arc weights are numbers
  already in this model.\<close>

definition w2f :: "real \<Rightarrow> real" where
  "w2f w = w"

type_synonym posterior = "(int \<times> real) list"

text \<open>Modelled from the spec: \<open>Predictor.finalize_posterior\<close> of
  cam/sgnmt/predictors/core.py, which is not among the sources. The spec (4.1) gives a
  "weights off" mode in which every reachable symbol scores 0 and a "normalize" mode
  in which the scores are renormalised to sum to 1 in probability space over exactly
  the reachable symbols; an empty distribution stays empty.\<close>

definition finalize_posterior :: "posterior \<Rightarrow> bool \<Rightarrow> bool \<Rightarrow> posterior" where
  "finalize_posterior scores use_w nrm =
     (let s1 = (if use_w then scores else map (\<lambda>(k, v). (k, 0)) scores)
      in if nrm
         then (let log_sum = ln (sum_list (map (\<lambda>(k, v). exp v) s1))
               in map (\<lambda>(k, v). (k, v - log_sum)) s1)
         else s1)"

text \<open>The attributes every one of the three constructors sets under the same name, and
  the messages sent to the \<open>logging\<close> module (level and format string).\<close>

record Predictor =
  current_sen_id :: int
  weight_factor :: real
  use_weights :: bool
  normalize_scores :: bool
  cur_fst :: "Fst option"
  logged :: "(level \<times> string) list"

definition logging :: "level \<Rightarrow> string \<Rightarrow> ('a Predictor_scheme) \<Rightarrow> ('a Predictor_scheme)" where
  "logging lv msg p = p\<lparr>logged := logged p @ [(lv, msg)]\<rparr>"

text \<open>Python list indexing; a negative index counts from the end.\<close>

definition py_index :: "'a list \<Rightarrow> int \<Rightarrow> error + 'a" where
  "py_index xs i =
     (if 0 \<le> i \<and> i < int (length xs) then Inr (xs ! nat i)
      else if i < 0 \<and> - int (length xs) \<le> i then Inr (xs ! nat (int (length xs) + i))
      else Inl IndexError)"

subsection \<open>FstPredictor\<close>

record FstPredictor = Predictor +
  add_bos_to_eos_score :: bool
  cur_node :: "int option"
  bos_score :: "real option"
  distances :: "real list option"

text \<open>\<open>__init__\<close>. \<open>bos_score\<close> and \<open>distances\<close> are not assigned by the constructor:
  \<open>None\<close> stands for the missing attribute. \<open>fst_path\<close> only names the file that
  \<open>initialize\<close> loads, and the loaded automaton is a parameter there.\<close>

definition FstPredictor_init :: "int \<Rightarrow> bool \<Rightarrow> bool \<Rightarrow> bool \<Rightarrow> bool \<Rightarrow> FstPredictor" where
  "FstPredictor_init sen_id use_w nrm skip_bos_weight to_log =
     \<lparr> current_sen_id = sen_id,
       weight_factor = (if to_log then - 1 else 1),
       use_weights = use_w,
       normalize_scores = nrm,
       cur_fst = None,
       logged = [],
       add_bos_to_eos_score = (\<not> skip_bos_weight),
       cur_node = Some (- 1),
       bos_score = None,
       distances = None \<rparr>"

definition fst_predict_next :: "utils \<Rightarrow> FstPredictor \<Rightarrow> error + posterior" where
  "fst_predict_next u p =
     (case cur_node p of
        None \<Rightarrow> Inr []
      | Some n \<Rightarrow>
          if n < 0 then Inr []
          else (case cur_fst p of
                  None \<Rightarrow> Inl AttributeError
                | Some f \<Rightarrow>
                    (let scores = fold (\<lambda>a sc. AList.update (olabel a)
                                            (weight_factor p * w2f (weight a)) sc)
                                       (arcs f n) []
                     in case map_of scores (EOS_ID u) of
                          None \<Rightarrow> Inr (finalize_posterior scores
                                         (use_weights p) (normalize_scores p))
                        | Some e \<Rightarrow>
                            if add_bos_to_eos_score p
                            then (case bos_score p of
                                    None \<Rightarrow> Inl AttributeError
                                  | Some b \<Rightarrow>
                                      Inr (finalize_posterior
                                             (AList.update (EOS_ID u) (e + b) scores)
                                             (use_weights p) (normalize_scores p)))
                            else Inr (finalize_posterior scores
                                        (use_weights p) (normalize_scores p)))))"

text \<open>The \<open>for\<close> loop of \<open>consume\<close>: the returned weight (\<open>None\<close> when the loop ends
  without \<open>return\<close>) and the new \<open>cur_node\<close>.\<close>

fun fst_consume_arcs ::
  "utils \<Rightarrow> real \<Rightarrow> int \<Rightarrow> arc list \<Rightarrow> arc option \<Rightarrow> real option \<times> int option" where
  "fst_consume_arcs u factor word [] unk_arc =
     (None, (case unk_arc of None \<Rightarrow> None | Some a \<Rightarrow> Some (nextstate a)))"
| "fst_consume_arcs u factor word (a # as) unk_arc =
     (if olabel a = word then (Some (factor * w2f (weight a)), Some (nextstate a))
      else if olabel a = UNK_ID u then fst_consume_arcs u factor word as (Some a)
      else fst_consume_arcs u factor word as unk_arc)"

definition fst_consume ::
  "utils \<Rightarrow> FstPredictor \<Rightarrow> int \<Rightarrow> error + (real option \<times> FstPredictor)" where
  "fst_consume u p word =
     (case cur_node p of
        None \<Rightarrow> Inr (None, p)
      | Some from_state \<Rightarrow>
          if from_state < 0 then Inr (None, p)
          else (case cur_fst p of
                  None \<Rightarrow> Inl AttributeError
                | Some f \<Rightarrow>
                    (let (r, n) = fst_consume_arcs u (weight_factor p) word
                                    (arcs f from_state) None
                     in Inr (r, p\<lparr>cur_node := n\<rparr>))))"

text \<open>\<open>initialize\<close>; \<open>loaded\<close> is what \<open>load_fst\<close> returned for the sentence's file
  (\<open>None\<close> when the file is missing or unreadable).\<close>

definition fst_initialize ::
  "utils \<Rightarrow> FstPredictor \<Rightarrow> Fst option \<Rightarrow> error + FstPredictor" where
  "fst_initialize u p loaded =
     (let p1 = p\<lparr>cur_fst := loaded,
                 cur_node := (case loaded of None \<Rightarrow> None | Some f \<Rightarrow> Some (start f))\<rparr>
      in case fst_consume u p1 (GO_ID u) of
           Inl e \<Rightarrow> Inl e
         | Inr (r, p2) \<Rightarrow>
             (let b = (case r of None \<Rightarrow> 0 | Some x \<Rightarrow> if x = 0 then 0 else x);
                  p3 = p2\<lparr>bos_score := Some b\<rparr>
              in Inr (if cur_node p3 = None
                      then logging WARNING
                             ''The lattice for sentence %d does not contain any valid path.'' p3
                      else p3)))"

definition fst_get_state :: "FstPredictor \<Rightarrow> int option" where
  "fst_get_state p = cur_node p"

definition fst_set_state :: "FstPredictor \<Rightarrow> int option \<Rightarrow> FstPredictor" where
  "fst_set_state p state = p\<lparr>cur_node := state\<rparr>"

definition fst_is_equal :: "int option \<Rightarrow> int option \<Rightarrow> bool" where
  "fst_is_equal state1 state2 = (state1 = state2)"

text \<open>\<open>estimate_future_cost\<close>; \<open>trgt_sentence\<close> is the hypothesis's target sentence.
  \<open>not self.cur_node\<close> holds for \<open>None\<close> and for \<open>0\<close>.\<close>

definition fst_estimate_future_cost :: "FstPredictor \<Rightarrow> int list \<Rightarrow> error + real" where
  "fst_estimate_future_cost p trgt_sentence =
     (case cur_node p of
        None \<Rightarrow> Inr 0
      | Some n \<Rightarrow>
          if n = 0 then Inr 0
          else (case py_index trgt_sentence (- 1) of
                  Inl e \<Rightarrow> Inl e
                | Inr last_word \<Rightarrow>
                    (case cur_fst p of
                       None \<Rightarrow> Inl AttributeError
                     | Some f \<Rightarrow>
                         (case find (\<lambda>a. olabel a = last_word) (arcs f n) of
                            None \<Rightarrow> Inr 0
                          | Some a \<Rightarrow>
                              (case distances p of
                                 None \<Rightarrow> Inl AttributeError
                               | Some ds \<Rightarrow>
                                   (case py_index ds (nextstate a) of
                                      Inl e \<Rightarrow> Inl e
                                    | Inr w \<Rightarrow> Inr (w2f w)))))))"


subsection \<open>The store of shared list objects\<close>

text \<open>A Python list is an object: \<open>get_state\<close> hands out a reference to it, not a copy.
  A reference is an address into the store; \<open>alloc\<close> is what a list display or a list
  comprehension does (a new object).\<close>

record 'a store =
  cells :: "nat \<Rightarrow> 'a"
  next_ref :: nat

definition alloc :: "'a store \<Rightarrow> 'a \<Rightarrow> nat \<times> 'a store" where
  "alloc h v = (next_ref h, h\<lparr>cells := (cells h)(next_ref h := v), next_ref := Suc (next_ref h)\<rparr>)"

subsection \<open>NondeterministicFstPredictor\<close>

text \<open>\<open>score_max_func\<close> is the builtin \<open>max\<close> or \<open>min\<close>. The module calls it with two
  numbers (in \<open>predict_next\<close>) and with one iterable (in \<open>consume\<close>), where an empty
  iterable raises \<open>ValueError\<close>.\<close>

datatype builtin = py_max | py_min

definition call2 :: "builtin \<Rightarrow> real \<Rightarrow> real \<Rightarrow> real" where
  "call2 b x y = (case b of py_max \<Rightarrow> max x y | py_min \<Rightarrow> min x y)"

definition call1 :: "builtin \<Rightarrow> real list \<Rightarrow> error + real" where
  "call1 b xs =
     (case xs of
        [] \<Rightarrow> Inl ValueError
      | x # r \<Rightarrow> Inr (fold (\<lambda>y acc. call2 b acc y) r x))"

type_synonym frontier = "(real \<times> int) list"

record NondeterministicFstPredictor = Predictor +
  score_max_func :: builtin
  skip_bos_weight :: bool
  cur_nodes :: nat

definition NondeterministicFstPredictor_init ::
  "frontier store \<Rightarrow> int \<Rightarrow> bool \<Rightarrow> bool \<Rightarrow> bool \<Rightarrow> bool
     \<Rightarrow> NondeterministicFstPredictor \<times> frontier store" where
  "NondeterministicFstPredictor_init h sen_id use_w nrm skip_bos to_log =
     (let (r, h') = alloc h []
      in (\<lparr> current_sen_id = sen_id,
             weight_factor = (if to_log then - 1 else 1),
             use_weights = use_w,
             normalize_scores = nrm,
             cur_fst = None,
             logged = [],
             score_max_func = (if to_log then py_max else py_min),
             skip_bos_weight = skip_bos,
             cur_nodes = r \<rparr>, h'))"

text \<open>\<open>predict_next\<close>: the body of the inner loop, then the two nested loops.\<close>

definition nfst_predict_arc ::
  "real \<Rightarrow> builtin \<Rightarrow> real \<Rightarrow> arc \<Rightarrow> posterior \<Rightarrow> posterior" where
  "nfst_predict_arc factor mx w a scores =
     (if olabel a \<noteq> EPS_ID
      then (let score = w + factor * w2f (weight a)
            in case map_of scores (olabel a) of
                 Some old \<Rightarrow> AList.update (olabel a) (call2 mx old score) scores
               | None \<Rightarrow> AList.update (olabel a) score scores)
      else scores)"

definition nfst_scores :: "real \<Rightarrow> builtin \<Rightarrow> Fst \<Rightarrow> frontier \<Rightarrow> posterior" where
  "nfst_scores factor mx f nodes =
     fold (\<lambda>(w, node) scores. fold (nfst_predict_arc factor mx w) (arcs f node) scores)
          nodes []"

definition nfst_predict_next ::
  "NondeterministicFstPredictor \<Rightarrow> frontier store \<Rightarrow> error + posterior" where
  "nfst_predict_next p h =
     (let nodes = cells h (cur_nodes p)
      in if nodes = []
         then Inr (finalize_posterior [] (use_weights p) (normalize_scores p))
         else (case cur_fst p of
                 None \<Rightarrow> Inl AttributeError
               | Some f \<Rightarrow>
                   Inr (finalize_posterior
                          (nfst_scores (weight_factor p) (score_max_func p) f nodes)
                          (use_weights p) (normalize_scores p))))"

text \<open>\<open>_follow_eps\<close>. \<open>eps_arc\<close> is the body of the loop over the arcs of one open node
  (the state is \<open>visited\<close>, \<open>next_open\<close>, \<open>has_noneps\<close>), \<open>eps_node\<close> the body of the loop
  over the open nodes, \<open>eps_level\<close> one round of the \<open>while\<close> loop.\<close>

type_synonym nodes = "(int \<times> real) list"

definition eps_arc :: "real \<Rightarrow> real \<Rightarrow> arc \<Rightarrow> nodes \<times> nodes \<times> bool \<Rightarrow> nodes \<times> nodes \<times> bool" where
  "eps_arc factor score a st =
     (case st of (visited, next_open, has_noneps) \<Rightarrow>
        if olabel a = EPS_ID
        then (let next_node = nextstate a;
                  next_score = score + factor * w2f (weight a)
              in if (case map_of visited next_node of None \<Rightarrow> True | Some v \<Rightarrow> v < next_score)
                 then (AList.update next_node next_score visited,
                       AList.update next_node next_score next_open,
                       has_noneps)
                 else (visited, next_open, has_noneps))
        else (visited, next_open, True))"

definition eps_node ::
  "real \<Rightarrow> Fst \<Rightarrow> int \<times> real \<Rightarrow> nodes \<times> nodes \<times> nodes \<Rightarrow> nodes \<times> nodes \<times> nodes" where
  "eps_node factor f e st =
     (case e of (node, score) \<Rightarrow>
      case st of (visited, next_open, d) \<Rightarrow>
      case fold (eps_arc factor score) (arcs f node) (visited, next_open, False) of
        (visited', next_open', has_noneps) \<Rightarrow>
          (visited', next_open', if has_noneps then AList.update node score d else d))"

definition eps_level :: "real \<Rightarrow> Fst \<Rightarrow> nodes \<Rightarrow> nodes \<Rightarrow> nodes \<Rightarrow> nodes \<times> nodes \<times> nodes" where
  "eps_level factor f open_nodes visited d =
     fold (eps_node factor f) open_nodes (visited, [], d)"

partial_function (option) eps_while ::
  "real \<Rightarrow> Fst \<Rightarrow> nodes \<Rightarrow> nodes \<Rightarrow> nodes \<Rightarrow> nodes option" where
  "eps_while factor f open_nodes visited d =
     (if open_nodes = [] then Some d
      else (case eps_level factor f open_nodes visited d of
              (visited', next_open, d') \<Rightarrow> eps_while factor f next_open visited' d'))"

text \<open>The loop over an \<open>Fst\<close>; \<open>follow_eps\<close> below adds the attribute access to
  \<open>self.cur_fst\<close>, which fails on \<open>None\<close> as soon as one node is open.\<close>

definition follow_eps_fst :: "real \<Rightarrow> Fst \<Rightarrow> nodes \<Rightarrow> frontier option" where
  "follow_eps_fst factor f roots =
     map_option (map (\<lambda>(node, w). (w, node))) (eps_while factor f roots roots [])"

definition follow_eps ::
  "('a Predictor_scheme) \<Rightarrow> nodes \<Rightarrow> (error + frontier) option" where
  "follow_eps p roots =
     (if roots = [] then Some (Inr [])
      else (case cur_fst p of
              None \<Rightarrow> Some (Inl AttributeError)
            | Some f \<Rightarrow> map_option Inr (follow_eps_fst (weight_factor p) f roots)))"

text \<open>\<open>consume\<close>: the body of the inner loop that fills \<open>d_unconsumed\<close>, the two nested
  loops, then the method. It returns nothing (\<open>None\<close>).\<close>

definition nfst_consume_arc :: "real \<Rightarrow> int \<Rightarrow> real \<Rightarrow> arc \<Rightarrow> nodes \<Rightarrow> nodes" where
  "nfst_consume_arc factor word w a d_unconsumed =
     (if olabel a = word
      then (let next_node = nextstate a;
                next_score = w + factor * w2f (weight a)
            in if (case map_of d_unconsumed next_node of None \<Rightarrow> True | Some v \<Rightarrow> v < next_score)
               then AList.update next_node next_score d_unconsumed
               else d_unconsumed)
      else d_unconsumed)"

definition nfst_unconsumed :: "real \<Rightarrow> Fst \<Rightarrow> int \<Rightarrow> frontier \<Rightarrow> nodes" where
  "nfst_unconsumed factor f word nodes =
     fold (\<lambda>(w, node) d. fold (nfst_consume_arc factor word w) (arcs f node) d) nodes []"

definition nfst_consume ::
  "utils \<Rightarrow> NondeterministicFstPredictor \<Rightarrow> frontier store \<Rightarrow> int
     \<Rightarrow> (error + (unit option \<times> NondeterministicFstPredictor \<times> frontier store)) option" where
  "nfst_consume u p h word =
     (let nodes = cells h (cur_nodes p)
      in if nodes \<noteq> [] \<and> cur_fst p = None then Some (Inl AttributeError)
         else (let d_unconsumed =
                     (case cur_fst p of
                        None \<Rightarrow> []
                      | Some f \<Rightarrow> nfst_unconsumed (weight_factor p) f word nodes)
               in case (if word \<noteq> GO_ID u \<or> skip_bos_weight p
                        then call1 (score_max_func p) (map snd d_unconsumed)
                        else Inr 0) of
                    Inl e \<Rightarrow> Some (Inl e)
                  | Inr consumed_score \<Rightarrow>
                      (case follow_eps p (map (\<lambda>(node, score). (node, score - consumed_score))
                                              d_unconsumed) of
                         None \<Rightarrow> None
                       | Some (Inl e) \<Rightarrow> Some (Inl e)
                       | Some (Inr fr) \<Rightarrow>
                           (let (r, h') = alloc h fr
                            in Some (Inr (None, p\<lparr>cur_nodes := r\<rparr>, h'))))))"

definition nfst_initialize ::
  "utils \<Rightarrow> NondeterministicFstPredictor \<Rightarrow> frontier store \<Rightarrow> Fst option
     \<Rightarrow> (error + (NondeterministicFstPredictor \<times> frontier store)) option" where
  "nfst_initialize u p h loaded =
     (let p1 = p\<lparr>cur_fst := loaded\<rparr>;
          (r, h1) = alloc h [];
          p2 = p1\<lparr>cur_nodes := r\<rparr>
      in case (case loaded of
                 None \<Rightarrow> Some (Inr (p2, h1))
               | Some f \<Rightarrow>
                   (case follow_eps p2 [(start f, 0)] of
                      None \<Rightarrow> None
                    | Some (Inl e) \<Rightarrow> Some (Inl e)
                    | Some (Inr fr) \<Rightarrow>
                        (let (r', h2) = alloc h1 fr in Some (Inr (p2\<lparr>cur_nodes := r'\<rparr>, h2))))) of
           None \<Rightarrow> None
         | Some (Inl e) \<Rightarrow> Some (Inl e)
         | Some (Inr (p3, h3)) \<Rightarrow>
             (case nfst_consume u p3 h3 (GO_ID u) of
                None \<Rightarrow> None
              | Some (Inl e) \<Rightarrow> Some (Inl e)
              | Some (Inr (x, p4, h4)) \<Rightarrow>
                  Some (Inr (if cells h4 (cur_nodes p4) = []
                             then logging WARNING
                                    ''The lattice for sentence %d does not contain any valid path.'' p4
                             else p4, h4))))"

definition nfst_get_state :: "NondeterministicFstPredictor \<Rightarrow> nat" where
  "nfst_get_state p = cur_nodes p"

definition nfst_set_state ::
  "NondeterministicFstPredictor \<Rightarrow> nat \<Rightarrow> NondeterministicFstPredictor" where
  "nfst_set_state p state = p\<lparr>cur_nodes := state\<rparr>"

text \<open>\<open>is_equal\<close> reads the two list objects it is given.\<close>

definition nfst_is_equal :: "frontier \<Rightarrow> frontier \<Rightarrow> bool" where
  "nfst_is_equal state1 state2 = (sort (map snd state1) = sort (map snd state2))"


subsection \<open>RtnPredictor\<close>

text \<open>What the module asks of the file system: the lines of a text file (\<open>None\<close> when
  \<open>open\<close> raises), \<open>os.access(name, os.R_OK)\<close>, \<open>glob.glob(pattern)\<close> and
  \<open>fst.Fst.read(name)\<close> (\<open>None\<close> when it raises).\<close>

record filesystem =
  open_lines :: "string \<Rightarrow> string list option"
  access_R_OK :: "string \<Rightarrow> bool"
  glob :: "string \<Rightarrow> string list"
  Fst_read :: "string \<Rightarrow> Fst option"

text \<open>The string operations of the constructor and of \<open>initialize\<close>: \<open>%d\<close>, \<open>strip()\<close>,
  \<open>split(None, 1)\<close> and \<open>zfill\<close>.\<close>

fun digits10 :: "nat \<Rightarrow> string" where
  "digits10 n =
     (if n < 10 then [''0123456789'' ! n]
      else digits10 (n div 10) @ [''0123456789'' ! (n mod 10)])"

definition format_d :: "int \<Rightarrow> string" where
  "format_d i = (if i < 0 then CHR ''-'' # digits10 (nat (- i)) else digits10 (nat i))"

definition is_space :: "char \<Rightarrow> bool" where
  "is_space c = (c \<in> {CHR '' '', CHR 0x09, CHR 0x0A, CHR 0x0B, CHR 0x0C, CHR 0x0D})"

definition py_strip :: "string \<Rightarrow> string" where
  "py_strip s = rev (dropWhile is_space (rev (dropWhile is_space s)))"

definition py_split1 :: "string \<Rightarrow> string list" where
  "py_split1 s =
     (let s1 = dropWhile is_space s
      in if s1 = [] then []
         else (let w = takeWhile (\<lambda>c. \<not> is_space c) s1;
                   r = dropWhile is_space (dropWhile (\<lambda>c. \<not> is_space c) s1)
               in if r = [] then [w] else [w, r]))"

definition zfill :: "nat \<Rightarrow> string \<Rightarrow> string" where
  "zfill width s =
     (if width \<le> length s then s
      else (case s of
              [] \<Rightarrow> replicate width (CHR ''0'')
            | c # r \<Rightarrow>
                if c = CHR ''+'' \<or> c = CHR ''-''
                then c # replicate (width - length s) (CHR ''0'') @ r
                else replicate (width - length s) (CHR ''0'') @ s))"

text \<open>\<open>dict(line.strip().split(None, 1) for line in f)\<close>: every element must have
  exactly two parts.\<close>

fun ntmap_dict :: "string list \<Rightarrow> (string \<times> string) list \<Rightarrow> error + (string \<times> string) list" where
  "ntmap_dict [] m = Inr m"
| "ntmap_dict (l # ls) m =
     (case py_split1 (py_strip l) of
        [k, v] \<Rightarrow> ntmap_dict ls (AList.update k v m)
      | _ \<Rightarrow> Inl ValueError)"

text \<open>The \<open>try\<close> block of the constructor: the value of \<open>start_id\<close> after it, and
  whether the \<open>except\<close> branch ran.\<close>

definition rtn_start_id :: "filesystem \<Rightarrow> string \<Rightarrow> string \<times> bool" where
  "rtn_start_id fs rtn_path =
     (case open_lines fs (rtn_path @ ''/ntmap'') of
        None \<Rightarrow> (''1'', True)
      | Some ls \<Rightarrow>
          (case ntmap_dict ls [] of
             Inl e \<Rightarrow> (''1'', True)
           | Inr ntmap \<Rightarrow>
               (case map_of ntmap ''S'' of
                  None \<Rightarrow> (''1'', True)
                | Some v \<Rightarrow> (v, False))))"

record RtnPredictor = Predictor +
  root_path :: string
  minimize_rtns :: bool
  rmeps :: bool
  root_fst_prefix :: string
  cur_history :: "nat option"
  sub_fsts :: "(int \<times> Fst) list"

text \<open>\<open>__init__\<close>. \<open>cur_history\<close> is first assigned by \<open>initialize\<close>: \<open>None\<close> stands for
  the missing attribute.\<close>

definition RtnPredictor_init ::
  "filesystem \<Rightarrow> int \<Rightarrow> string \<Rightarrow> bool \<Rightarrow> bool \<Rightarrow> bool \<Rightarrow> bool \<Rightarrow> bool \<Rightarrow> RtnPredictor" where
  "RtnPredictor_init fs sen_id rtn_path use_w nrm to_log minimize rm =
     (case rtn_start_id fs rtn_path of (start_id, failed) \<Rightarrow>
        \<lparr> current_sen_id = sen_id,
          weight_factor = (if to_log then - 1 else 1),
          use_weights = use_w,
          normalize_scores = nrm,
          cur_fst = None,
          logged = (if failed
                    then [(WARNING, ''Could not find NT S in ntmap. Assuming its ID 1'')]
                    else []),
          root_path = rtn_path,
          minimize_rtns = minimize,
          rmeps = rm,
          root_fst_prefix = ''1'' @ zfill 3 start_id @ ''000'',
          cur_history = None,
          sub_fsts = [] \<rparr>)"

definition rtn_consume ::
  "RtnPredictor \<Rightarrow> int list store \<Rightarrow> int
     \<Rightarrow> error + (unit option \<times> RtnPredictor \<times> int list store)" where
  "rtn_consume p h word =
     (case cur_history p of
        None \<Rightarrow> Inl AttributeError
      | Some r \<Rightarrow> Inr (None, p, h\<lparr>cells := (cells h)(r := cells h r @ [word])\<rparr>))"

text \<open>\<open>initialize\<close>. \<open>rtn_root_file\<close> is the search for the root file inside the \<open>try\<close>
  block: the messages logged and the file found, if any. \<open>rtn_read_root\<close> is the
  call of \<open>fst.Fst.read\<close> with its \<open>except\<close> branch. \<open>rtn_reset\<close> is the \<open>finally\<close>
  block.\<close>

definition rtn_file_name :: "RtnPredictor \<Rightarrow> string" where
  "rtn_file_name p = root_path p @ ''/'' @ format_d (current_sen_id p + 1) @ ''.fst''"

definition rtn_search_pattern :: "RtnPredictor \<Rightarrow> string" where
  "rtn_search_pattern p =
     root_path p @ ''/'' @ format_d (current_sen_id p + 1) @ ''/'' @ root_fst_prefix p @ ''*.fst''"

definition rtn_root_file :: "filesystem \<Rightarrow> RtnPredictor \<Rightarrow> RtnPredictor \<times> string option" where
  "rtn_root_file fs p =
     (let file_name = rtn_file_name p
      in if \<not> access_R_OK fs file_name
         then (let search_pattern = rtn_search_pattern p;
                   candidates = glob fs search_pattern
               in if candidates = []
                  then (logging ERROR ''Could not find root fst in %s'' p, None)
                  else if 1 < length candidates
                  then (logging WARNING
                          ''Ambiguous root fst for %s. Take the one with largest span.'' p,
                        Some (last (sort candidates)))
                  else (p, Some (last candidates)))
         else (p, Some file_name))"

definition rtn_read_root :: "filesystem \<Rightarrow> RtnPredictor \<Rightarrow> string \<Rightarrow> RtnPredictor" where
  "rtn_read_root fs p file_name =
     (case Fst_read fs file_name of
        Some f \<Rightarrow> logging DEBUG ''Read (root)fst from %s'' (p\<lparr>cur_fst := Some f\<rparr>)
      | None \<Rightarrow> (logging ERROR ''%s error reading fst from %s: %s'' p)\<lparr>cur_fst := None\<rparr>)"

definition rtn_reset ::
  "RtnPredictor \<Rightarrow> int list store \<Rightarrow> RtnPredictor \<times> int list store" where
  "rtn_reset p h = (let (r, h') = alloc h [] in (p\<lparr>cur_history := Some r, sub_fsts := []\<rparr>, h'))"

definition rtn_initialize ::
  "filesystem \<Rightarrow> utils \<Rightarrow> RtnPredictor \<Rightarrow> int list store
     \<Rightarrow> error + (RtnPredictor \<times> int list store)" where
  "rtn_initialize fs u p h =
     (case rtn_root_file fs p of
        (p1, None) \<Rightarrow> Inr (rtn_reset (p1\<lparr>cur_fst := None\<rparr>) h)
      | (p1, Some file_name) \<Rightarrow>
          (case rtn_reset (rtn_read_root fs p1 file_name) h of
             (p2, h2) \<Rightarrow>
               (case rtn_consume p2 h2 (GO_ID u) of
                  Inl e \<Rightarrow> Inl e
                | Inr (x, p3, h3) \<Rightarrow> Inr (p3, h3))))"

text \<open>\<open>predict_next\<close>. The expansion of the RTN (\<open>expand_rtn\<close> run with
  \<open>_add_to_cur_posterior\<close>) rests on OpenFST's \<open>replace\<close>, \<open>rmepsilon\<close>, \<open>determinize\<close>
  and \<open>minimize\<close>; it is a parameter: from the predictor and the history it gives
  \<open>cur_posterior\<close> and the predictor with the expanded automaton.\<close>

definition rtn_predict_next ::
  "(RtnPredictor \<Rightarrow> int list \<Rightarrow> error + (posterior \<times> RtnPredictor))
     \<Rightarrow> RtnPredictor \<Rightarrow> int list store \<Rightarrow> error + (posterior \<times> RtnPredictor)" where
  "rtn_predict_next expand_rtn p h =
     (case cur_fst p of
        None \<Rightarrow> Inr ([], p)
      | Some f \<Rightarrow>
          (case cur_history p of
             None \<Rightarrow> Inl AttributeError
           | Some r \<Rightarrow>
               (case expand_rtn p (cells h r) of
                  Inl e \<Rightarrow> Inl e
                | Inr (cur_posterior, p') \<Rightarrow>
                    Inr (finalize_posterior cur_posterior
                           (use_weights p') (normalize_scores p'), p'))))"

definition rtn_get_state :: "RtnPredictor \<Rightarrow> nat option" where
  "rtn_get_state p = cur_history p"

definition rtn_set_state :: "RtnPredictor \<Rightarrow> nat option \<Rightarrow> RtnPredictor" where
  "rtn_set_state p state = p\<lparr>cur_history := state\<rparr>"


subsection \<open>Concrete inputs\<close>

text \<open>The automaton of the spec's example: start state 0, an arc from 0 to 1 labelled
  with the begin marker (weight 0), an arc from 1 to 2 labelled 5 (weight 2), state 2
  final (no arcs). The symbol ids are those of one indexing scheme.\<close>

definition example_utils :: utils where
  "example_utils = \<lparr>GO_ID = 1, EOS_ID = 2, UNK_ID = 3\<rparr>"

definition example_fst :: Fst where
  "example_fst =
     \<lparr>start = 0,
      arcs = (\<lambda>n. if n = 0 then [\<lparr>ilabel = 1, olabel = 1, weight = 0, nextstate = 1\<rparr>]
                  else if n = 1 then [\<lparr>ilabel = 5, olabel = 5, weight = 2, nextstate = 2\<rparr>]
                  else [])\<rparr>"

definition empty_store :: "'a list store" where
  "empty_store = \<lparr>cells = (\<lambda>_. []), next_ref = 0\<rparr>"

text \<open>A deterministic predictor standing at node 0 of an automaton whose node 0 has an
  arc labelled 5 into node 1, with a distance table that gives node 1 the distance 7.\<close>

definition at_node_zero :: FstPredictor where
  "at_node_zero =
     (FstPredictor_init 0 True False True True)
       \<lparr>cur_fst := Some \<lparr>start = 0,
                         arcs = (\<lambda>n. if n = 0
                                      then [\<lparr>ilabel = 5, olabel = 5, weight = 2, nextstate = 1\<rparr>]
                                      else [])\<rparr>,
        cur_node := Some 0,
        distances := Some [3, 7]\<rparr>"

text \<open>A deterministic predictor standing at node 1 of the example automaton, a
  nondeterministic predictor whose frontier is \<open>[(0, 1)]\<close> on it, and an RTN predictor
  without root automaton whose history is \<open>[1]\<close>.\<close>

definition example_det :: FstPredictor where
  "example_det =
     (FstPredictor_init 0 True False True True)
       \<lparr>cur_fst := Some example_fst, cur_node := Some 1, bos_score := Some 0\<rparr>"

definition example_nfst :: "NondeterministicFstPredictor \<times> frontier store" where
  "example_nfst =
     (\<lparr> current_sen_id = 0, weight_factor = - 1, use_weights = True,
         normalize_scores = False, cur_fst = Some example_fst, logged = [],
         score_max_func = py_max, skip_bos_weight = True, cur_nodes = 0 \<rparr>,
      \<lparr> cells = (\<lambda>r. if r = 0 then [(0, 1)] else []), next_ref = 1 \<rparr>)"

definition example_rtn :: "RtnPredictor \<times> int list store" where
  "example_rtn =
     (\<lparr> current_sen_id = 0, weight_factor = - 1, use_weights = True,
         normalize_scores = False, cur_fst = None, logged = [],
         root_path = ''rtn'', minimize_rtns = False, rmeps = True,
         root_fst_prefix = ''1001000'', cur_history = Some 0, sub_fsts = [] \<rparr>,
      \<lparr> cells = (\<lambda>r. if r = 0 then [1] else []), next_ref = 1 \<rparr>)"

subsection \<open>Validity of the deterministic predictor\<close>

text \<open>The test \<open>self.cur_node < 0\<close> of \<open>predict_next\<close> and \<open>consume\<close>, negated: the
  predictor has a current node.\<close>

definition fst_valid :: "FstPredictor \<Rightarrow> bool" where
  "fst_valid p = (case cur_node p of None \<Rightarrow> False | Some n \<Rightarrow> 0 \<le> n)"

subsection \<open>Sequences of calls\<close>

text \<open>The decoder's successive calls of \<open>consume\<close> on one predictor, stopping at the
  first exception.\<close>

fun fst_consume_all :: "utils \<Rightarrow> FstPredictor \<Rightarrow> int list \<Rightarrow> error + FstPredictor" where
  "fst_consume_all u p [] = Inr p"
| "fst_consume_all u p (w # ws) =
     (case fst_consume u p w of
        Inl e \<Rightarrow> Inl e
      | Inr (r, p') \<Rightarrow> fst_consume_all u p' ws)"

fun nfst_consume_all ::
  "utils \<Rightarrow> NondeterministicFstPredictor \<Rightarrow> frontier store \<Rightarrow> int list
     \<Rightarrow> (error + (NondeterministicFstPredictor \<times> frontier store)) option" where
  "nfst_consume_all u p h [] = Some (Inr (p, h))"
| "nfst_consume_all u p h (w # ws) =
     (case nfst_consume u p h w of
        None \<Rightarrow> None
      | Some (Inl e) \<Rightarrow> Some (Inl e)
      | Some (Inr (r, p', h')) \<Rightarrow> nfst_consume_all u p' h' ws)"

fun rtn_consume_all ::
  "RtnPredictor \<Rightarrow> int list store \<Rightarrow> int list
     \<Rightarrow> error + (RtnPredictor \<times> int list store)" where
  "rtn_consume_all p h [] = Inr (p, h)"
| "rtn_consume_all p h (w # ws) =
     (case rtn_consume p h w of
        Inl e \<Rightarrow> Inl e
      | Inr (r, p', h') \<Rightarrow> rtn_consume_all p' h' ws)"

subsection \<open>A file system for the RTN predictor\<close>

text \<open>No \<open>ntmap\<close> and no root file directly under the base directory. Sentence 1 has two
  candidate root files, of which the lexicographically last one is readable; sentence 2
  has none; sentence 3 has one, which is unreadable.\<close>

definition example_fs :: filesystem where
  "example_fs =
     \<lparr> open_lines = (\<lambda>name. None),
       access_R_OK = (\<lambda>name. False),
       glob = (\<lambda>pattern.
                 if pattern = ''rtn/1/1001000*.fst''
                 then [''rtn/1/1001000010.fst'', ''rtn/1/1001000002.fst'']
                 else if pattern = ''rtn/3/1001000*.fst''
                 then [''rtn/3/1001000005.fst'']
                 else []),
       Fst_read = (\<lambda>name. if name = ''rtn/1/1001000010.fst'' then Some example_fst else None) \<rparr>"

text \<open>An automaton whose start state has neither an arc labelled with the begin marker
  nor one labelled with the unknown word.\<close>

definition no_begin_fst :: Fst where
  "no_begin_fst =
     \<lparr>start = 0,
      arcs = (\<lambda>n. if n = 0 then [\<lparr>ilabel = 5, olabel = 5, weight = 2, nextstate = 1\<rparr>] else [])\<rparr>"

text \<open>An automaton without a begin-marker arc whose start state has an arc labelled
  with the unknown word, followed by an arc labelled 5.\<close>

definition unk_start_fst :: Fst where
  "unk_start_fst =
     \<lparr>start = 0,
      arcs = (\<lambda>n. if n = 0 then [\<lparr>ilabel = 3, olabel = 3, weight = 1, nextstate = 1\<rparr>]
                  else if n = 1 then [\<lparr>ilabel = 5, olabel = 5, weight = 2, nextstate = 2\<rparr>]
                  else [])\<rparr>"

text \<open>The automaton without states: \<open>start()\<close> returns \<open>-1\<close>.\<close>

definition stateless_fst :: Fst where
  "stateless_fst = \<lparr>start = - 1, arcs = (\<lambda>n. [])\<rparr>"

subsection \<open>The scores that reach a destination\<close>

text \<open>What the spec says \<open>consume\<close> keeps the maximum of: the scores with which state
  \<open>n\<close> is reached from the frontier \<open>nodes\<close> over one arc labelled \<open>word\<close>, one score
  for each frontier member and each such arc.\<close>

definition reach_scores :: "real \<Rightarrow> Fst \<Rightarrow> int \<Rightarrow> frontier \<Rightarrow> int \<Rightarrow> real list" where
  "reach_scores factor f word nodes n =
     concat (map (\<lambda>(w, node). map (\<lambda>a. w + factor * w2f (weight a))
                                  (filter (\<lambda>a. olabel a = word \<and> nextstate a = n) (arcs f node)))
                 nodes)"

text \<open>The test-and-assign of the loop body of \<open>consume\<close>, seen on the entry of one state:
  the entry (if any) after the candidate scores \<open>xs\<close> have been offered in turn.\<close>

fun keep_max :: "real option \<Rightarrow> real list \<Rightarrow> real option" where
  "keep_max v [] = v"
| "keep_max v (x # xs) =
     keep_max (case v of None \<Rightarrow> Some x | Some y \<Rightarrow> if y < x then Some x else Some y) xs"

text \<open>A nondeterministic lattice: the begin-marker arc has weight 3; node 1 reaches
  node 2 over two arcs labelled 5 and node 3 over one; node 3 has an epsilon arc into
  node 2 besides its arc labelled 7. \<open>lattice_nfst\<close> is a predictor on it whose frontier
  is \<open>[(0, 1)]\<close>.\<close>

definition lattice_fst :: Fst where
  "lattice_fst =
     \<lparr>start = 0,
      arcs = (\<lambda>n. if n = 0 then [\<lparr>ilabel = 1, olabel = 1, weight = 3, nextstate = 1\<rparr>]
                  else if n = 1 then [\<lparr>ilabel = 5, olabel = 5, weight = 2, nextstate = 2\<rparr>,
                                      \<lparr>ilabel = 5, olabel = 5, weight = 1, nextstate = 3\<rparr>,
                                      \<lparr>ilabel = 5, olabel = 5, weight = 4, nextstate = 2\<rparr>]
                  else if n = 2 then [\<lparr>ilabel = 6, olabel = 6, weight = 0, nextstate = 4\<rparr>]
                  else if n = 3 then [\<lparr>ilabel = 0, olabel = 0, weight = 1, nextstate = 2\<rparr>,
                                      \<lparr>ilabel = 7, olabel = 7, weight = 0, nextstate = 4\<rparr>]
                  else [])\<rparr>"

definition lattice_nfst :: "NondeterministicFstPredictor \<times> frontier store" where
  "lattice_nfst =
     (\<lparr> current_sen_id = 0, weight_factor = - 1, use_weights = True,
         normalize_scores = False, cur_fst = Some lattice_fst, logged = [],
         score_max_func = py_max, skip_bos_weight = True, cur_nodes = 0 \<rparr>,
      \<lparr> cells = (\<lambda>r. if r = 0 then [(0, 1)] else []), next_ref = 1 \<rparr>)"

subsection \<open>Notions for reasoning about _follow_eps\<close>

text \<open>The entries of one state in \<open>visited\<close> and in \<open>next_open\<close> after the candidate
  scores \<open>xs\<close> have been offered in turn (the test-and-assign of the inner loop of
  \<open>_follow_eps\<close>).\<close>

fun track :: "real option \<times> real option \<Rightarrow> real list \<Rightarrow> real option \<times> real option" where
  "track st [] = st"
| "track st (x # xs) =
     track (if (case fst st of None \<Rightarrow> True | Some y \<Rightarrow> y < x) then (Some x, Some x) else st) xs"

text \<open>The candidate scores one round of \<open>_follow_eps\<close> offers to state \<open>n\<close>: one for each
  open node and each of its epsilon arcs into \<open>n\<close>.\<close>

definition eps_scores :: "real \<Rightarrow> Fst \<Rightarrow> nodes \<Rightarrow> int \<Rightarrow> real list" where
  "eps_scores factor f open_nodes n =
     concat (map (\<lambda>(node, score). map (\<lambda>a. score + factor * w2f (weight a))
                                      (filter (\<lambda>a. olabel a = EPS_ID \<and> nextstate a = n) (arcs f node)))
                 open_nodes)"

text \<open>The flag \<open>has_noneps\<close> of a node at the end of the loop over its arcs.\<close>

definition has_noneps :: "Fst \<Rightarrow> int \<Rightarrow> bool" where
  "has_noneps f node = (\<exists>a \<in> set (arcs f node). olabel a \<noteq> EPS_ID)"

text \<open>The candidate scores that the arcs \<open>as\<close> of one open node offer to state \<open>n\<close>.\<close>

definition arc_scores :: "real \<Rightarrow> real \<Rightarrow> arc list \<Rightarrow> int \<Rightarrow> real list" where
  "arc_scores factor score as n =
     map (\<lambda>a. score + factor * w2f (weight a))
         (filter (\<lambda>a. olabel a = EPS_ID \<and> nextstate a = n) as)"

text \<open>A table of scores is closed: every epsilon arc from a state of the table leads
  to a state of the table whose score is at least the score along the arc.\<close>

definition eps_closed :: "real \<Rightarrow> Fst \<Rightarrow> (int \<rightharpoonup> real) \<Rightarrow> bool" where
  "eps_closed factor f V =
     (\<forall>x vx a. V x = Some vx \<and> a \<in> set (arcs f x) \<and> olabel a = EPS_ID
        \<longrightarrow> (\<exists>vy. V (nextstate a) = Some vy \<and> vx + factor * w2f (weight a) \<le> vy))"

text \<open>The dictionary \<open>d\<close> of \<open>_follow_eps\<close> for a table of scores: the states of the table
  that have a non-epsilon arc, with their scores.\<close>

definition frontier_of :: "Fst \<Rightarrow> (int \<rightharpoonup> real) \<Rightarrow> (int \<rightharpoonup> real) \<Rightarrow> bool" where
  "frontier_of f V D = (\<forall>x. D x = (if has_noneps f x then V x else None))"

text \<open>One round of the \<open>while\<close> loop of \<open>_follow_eps\<close>, on the dictionaries read as maps:
  what \<open>visited\<close>, \<open>next_open\<close> and \<open>d\<close> are after the round.\<close>

definition eps_step ::
  "real \<Rightarrow> Fst \<Rightarrow> (int \<rightharpoonup> real) \<Rightarrow> (int \<rightharpoonup> real) \<Rightarrow> (int \<rightharpoonup> real)
     \<Rightarrow> (int \<rightharpoonup> real) \<Rightarrow> (int \<rightharpoonup> real) \<Rightarrow> (int \<rightharpoonup> real) \<Rightarrow> bool" where
  "eps_step factor f opn vis dn vis' nxt dn' =
     ((\<forall>n. vis' n = vis n
           \<or> (\<exists>x s a. opn x = Some s \<and> a \<in> set (arcs f x) \<and> olabel a = EPS_ID
                 \<and> nextstate a = n \<and> vis' n = Some (s + factor * w2f (weight a))))
      \<and> (\<forall>n v. vis n = Some v \<longrightarrow> (\<exists>v'. vis' n = Some v' \<and> v \<le> v'))
      \<and> (\<forall>x s a. opn x = Some s \<and> a \<in> set (arcs f x) \<and> olabel a = EPS_ID
            \<longrightarrow> (\<exists>v'. vis' (nextstate a) = Some v' \<and> s + factor * w2f (weight a) \<le> v'))
      \<and> (\<forall>n. nxt n = (if vis' n = vis n then None else vis' n))
      \<and> (\<forall>n. dn' n = (if has_noneps f n \<and> opn n \<noteq> None then opn n else dn n)))"

text \<open>The invariant of the \<open>while\<close> loop of \<open>_follow_eps\<close>: open nodes carry their visited
  score; a visited node that is not open has been expanded with its score; \<open>d\<close> is
  up to date for the nodes that are not open.\<close>

definition eps_inv ::
  "real \<Rightarrow> Fst \<Rightarrow> (int \<rightharpoonup> real) \<Rightarrow> (int \<rightharpoonup> real) \<Rightarrow> (int \<rightharpoonup> real) \<Rightarrow> bool" where
  "eps_inv factor f opn vis dn =
     ((\<forall>x s. opn x = Some s \<longrightarrow> vis x = Some s)
      \<and> (\<forall>x vx a. vis x = Some vx \<and> opn x = None \<and> a \<in> set (arcs f x) \<and> olabel a = EPS_ID
            \<longrightarrow> (\<exists>vy. vis (nextstate a) = Some vy \<and> vx + factor * w2f (weight a) \<le> vy))
      \<and> (\<forall>x. opn x = None \<longrightarrow> dn x = (if has_noneps f x then vis x else None))
      \<and> (\<forall>x. dn x \<noteq> None \<longrightarrow> has_noneps f x \<and> vis x \<noteq> None))"

text \<open>The invariant of a second run of the loop, started from the result \<open>df\<close> of a
  first run whose final table was \<open>vf\<close>: no score exceeds that of the first run, and
  the scores of the result do not move.\<close>

definition eps_inv2 ::
  "(int \<rightharpoonup> real) \<Rightarrow> (int \<rightharpoonup> real) \<Rightarrow> (int \<rightharpoonup> real) \<Rightarrow> (int \<rightharpoonup> real)
     \<Rightarrow> (int \<rightharpoonup> real) \<Rightarrow> bool" where
  "eps_inv2 vf df opn vis dn =
     ((\<forall>x s. vis x = Some s \<longrightarrow> (\<exists>v. vf x = Some v \<and> s \<le> v))
      \<and> (\<forall>x. df x \<noteq> None \<longrightarrow> vis x = df x)
      \<and> (\<forall>x s. opn x = Some s \<longrightarrow> vis x = Some s)
      \<and> (\<forall>x. dn x = (if opn x \<noteq> None then None else df x))
      \<and> (\<forall>x. opn x \<noteq> None \<and> df x \<noteq> None \<longrightarrow> opn x = df x))"

text \<open>How far the score of a state is below its score in the table \<open>vf\<close>.\<close>

definition deficit :: "(int \<rightharpoonup> real) \<Rightarrow> (int \<rightharpoonup> real) \<Rightarrow> int \<Rightarrow> real" where
  "deficit vf m x = the (vf x) - the (m x)"

text \<open>The visited states whose deficit is at most the least deficit of an open node:
  no later round changes their score.\<close>

definition settled :: "(int \<rightharpoonup> real) \<Rightarrow> (int \<rightharpoonup> real) \<Rightarrow> (int \<rightharpoonup> real) \<Rightarrow> int set" where
  "settled vf opn vis = {x \<in> dom vis. deficit vf vis x \<le> Min (deficit vf opn ` dom opn)}"

section \<open>Properties\<close>

subsection \<open>Evaluation rules\<close>

lemmas nfst_eval =
  NondeterministicFstPredictor_init_def empty_store_def alloc_def nfst_initialize_def
  nfst_consume_def nfst_unconsumed_def nfst_consume_arc_def call1_def call2_def
  follow_eps_def follow_eps_fst_def eps_while.simps eps_level_def eps_node_def eps_arc_def
  example_utils_def example_fst_def EPS_ID_def w2f_def logging_def

lemmas fst_eval =
  FstPredictor_init_def fst_initialize_def fst_consume_def fst_predict_next_def
  finalize_posterior_def example_utils_def example_fst_def w2f_def logging_def

subsection \<open>The nondeterministic predictor on an unmatched word\<close>

text \<open>C1. The claim: when \<open>consume(word)\<close> of the nondeterministic predictor finds no arc
  labelled \<open>word\<close> at any member of a non-empty frontier, the predictor becomes invalid
  and \<open>consume\<close> does not raise. The code at such an input: after \<open>initialize\<close> on the
  example automaton the frontier is \<open>[(0, 1)]\<close>; node 1 has no arc labelled 7, so
  \<open>d_unconsumed\<close> stays empty and \<open>max\<close> of its values raises \<open>ValueError\<close>.\<close>

theorem C1_consume_unmatched_raises:
  "\<exists>p h p' h'.
     NondeterministicFstPredictor_init empty_store 0 True False True True = (p, h)
     \<and> nfst_initialize example_utils p h (Some example_fst) = Some (Inr (p', h'))
     \<and> cells h' (cur_nodes p') = [(0, 1)]
     \<and> nfst_consume example_utils p' h' 7 = Some (Inl ValueError)"
  by (simp add: nfst_eval)

theorem C1_consume_unmatched_witness:
  "\<exists>p' h'. cells h' (cur_nodes p') \<noteq> []
     \<and> nfst_consume example_utils p' h' 7 = Some (Inl ValueError)"
proof -
  from C1_consume_unmatched_raises obtain p' h'
    where a: "cells h' (cur_nodes p') = [(0, 1)]"
      and b: "nfst_consume example_utils p' h' 7 = Some (Inl ValueError)"
    by blast
  from a have "cells h' (cur_nodes p') \<noteq> []" by simp
  with b show ?thesis by blast
qed

subsection \<open>Equality of frontiers\<close>

lemma sort_eq_iff_mset: "sort xs = sort ys \<longleftrightarrow> mset xs = mset ys"
proof
  assume "sort xs = sort ys"
  then have "mset (sort xs) = mset (sort ys)" by simp
  then show "mset xs = mset ys" by simp
next
  assume "mset xs = mset ys"
  then show "sort xs = sort ys"
    by (metis mset_sort properties_for_sort sorted_sort)
qed

lemma nfst_is_equal_iff:
  "nfst_is_equal a b \<longleftrightarrow> mset (map snd a) = mset (map snd b)"
  by (simp add: nfst_is_equal_def sort_eq_iff_mset)

text \<open>C8. \<open>is_equal\<close> of the nondeterministic predictor depends only on the multiset of
  state ids of the two snapshots: replacing either snapshot by one with the same
  multiset of state ids (any reordering of the pairs, any change of the scores) does
  not change the answer.\<close>

theorem C8_is_equal_state_ids_only:
  assumes "mset (map snd a') = mset (map snd a)"
    and "mset (map snd b') = mset (map snd b)"
  shows "nfst_is_equal a' b' = nfst_is_equal a b"
  using assms by (simp add: nfst_is_equal_iff)

theorem C8_is_equal_witness:
  "mset (map snd [(9, 2), (7, 1 :: int)]) = mset (map snd [(1 / 2, 1), (1 / 4, 2 :: int)])
   \<and> nfst_is_equal [(9, 2), (7, 1)] [(0, 1), (0, 2)]
     = nfst_is_equal [(1 / 2, 1), (1 / 4, 2)] [(0, 1), (0, 2)]
   \<and> nfst_is_equal [(1 / 2, 1), (1 / 4, 2)] [(0, 1), (0, 2)]"
proof -
  have a: "mset (map snd [(9 :: real, 2), (7, 1 :: int)])
             = mset (map snd [(1 / 2 :: real, 1), (1 / 4, 2 :: int)])"
    by simp
  have b: "mset (map snd [(0 :: real, 1 :: int), (0, 2)]) = mset (map snd [(0 :: real, 1 :: int), (0, 2)])"
    by simp
  have "nfst_is_equal [(1 / 2, 1), (1 / 4, 2)] [(0, 1), (0, 2)]"
    by (simp add: nfst_is_equal_def)
  with C8_is_equal_state_ids_only [OF a b] a show ?thesis by simp
qed

subsection \<open>The future cost at node 0\<close>

text \<open>C10. Whenever the current node of the deterministic predictor is 0,
  \<open>estimate_future_cost\<close> returns 0.0, whatever the automaton, the distance table and
  the hypothesis are: \<open>not self.cur_node\<close> holds for 0 as it does for \<open>None\<close>, and the
  lookup of the matching arc's distance is not reached.\<close>

theorem C10_future_cost_at_node_zero:
  "cur_node p = Some 0 \<Longrightarrow> fst_estimate_future_cost p trgt_sentence = Inr 0"
  by (simp add: fst_estimate_future_cost_def)

text \<open>At \<open>at_node_zero\<close> the arc labelled 5 leads to node 1, whose distance is 7; the
  same predictor standing at any other node with that arc would return 7.\<close>

theorem C10_future_cost_witness:
  "cur_node at_node_zero = Some 0
   \<and> fst_estimate_future_cost at_node_zero [5] = Inr 0
   \<and> (case cur_fst at_node_zero of
        Some f \<Rightarrow> map nextstate (filter (\<lambda>a. olabel a = 5) (arcs f 0)) = [1])
   \<and> map_option (\<lambda>ds. py_index ds 1) (distances at_node_zero) = Some (Inr 7)"
proof -
  have c: "cur_node at_node_zero = Some 0"
    by (simp add: at_node_zero_def)
  from C10_future_cost_at_node_zero [OF c, of "[5]"] c show ?thesis
    by (simp add: at_node_zero_def FstPredictor_init_def py_index_def)
qed

subsection \<open>What consume returns\<close>

lemma find_append_cases:
  "find P (xs @ ys) = (case find P xs of Some x \<Rightarrow> Some x | None \<Rightarrow> find P ys)"
  by (induction xs) auto

lemma fst_consume_arcs_find:
  "fst_consume_arcs u factor word as unk_arc =
     (case find (\<lambda>a. olabel a = word) as of
        Some a \<Rightarrow> (Some (factor * w2f (weight a)), Some (nextstate a))
      | None \<Rightarrow>
          (None, map_option nextstate
                   (case find (\<lambda>a. olabel a = UNK_ID u) (rev as) of
                      Some a \<Rightarrow> Some a
                    | None \<Rightarrow> unk_arc)))"
proof (induction as arbitrary: unk_arc)
  case Nil
  show ?case by (simp split: option.splits)
next
  case (Cons a as)
  show ?case
    by (simp add: Cons.IH find_append_cases split: option.splits)
qed

lemma fst_consume_invalid:
  "\<not> fst_valid p \<Longrightarrow> fst_consume u p word = Inr (None, p)"
  by (auto simp: fst_valid_def fst_consume_def split: option.splits)

lemma fst_consume_match:
  assumes "cur_node p = Some n" "0 \<le> n" "cur_fst p = Some f"
    and "find (\<lambda>a. olabel a = word) (arcs f n) = Some a"
  shows "fst_consume u p word
           = Inr (Some (weight_factor p * weight a), p\<lparr>cur_node := Some (nextstate a)\<rparr>)"
  using assms by (simp add: fst_consume_def fst_consume_arcs_find w2f_def)

lemma fst_consume_nomatch:
  assumes "cur_node p = Some n" "0 \<le> n" "cur_fst p = Some f"
    and "find (\<lambda>a. olabel a = word) (arcs f n) = None"
  shows "fst_consume u p word
           = Inr (None, p\<lparr>cur_node := map_option nextstate
                              (find (\<lambda>a. olabel a = UNK_ID u) (rev (arcs f n)))\<rparr>)"
  using assms by (simp add: fst_consume_def fst_consume_arcs_find split: option.splits)

lemma nfst_consume_returns_None:
  "nfst_consume u p h word = Some (Inr (r, p', h')) \<Longrightarrow> r = None"
  by (auto simp: nfst_consume_def Let_def split: if_splits sum.splits option.splits prod.splits)

lemma rtn_consume_returns_None:
  "rtn_consume p h word = Inr (r, p', h') \<Longrightarrow> r = None"
  by (auto simp: rtn_consume_def split: option.splits)


text \<open>C4, amended. For the deterministic predictor, \<open>consume\<close> returns the weight (times
  the weight factor) of the first arc labelled with the word when the current node has
  one; when it has none (whether or not an arc labelled with the unknown word is
  followed instead) and when the predictor is invalid, it returns \<open>None\<close>, not 0. For
  the nondeterministic and the RTN predictor, \<open>consume\<close> returns \<open>None\<close> whenever it
  returns.\<close>

theorem C4_consume_return_value:
  "(cur_node px = Some nx \<and> 0 \<le> nx \<and> cur_fst px = Some fx
      \<and> find (\<lambda>a. olabel a = wx) (arcs fx nx) = Some ax
    \<longrightarrow> fst_consume u px wx
          = Inr (Some (weight_factor px * weight ax), px\<lparr>cur_node := Some (nextstate ax)\<rparr>))
   \<and> (cur_node py = Some ny \<and> 0 \<le> ny \<and> cur_fst py = Some fy
        \<and> find (\<lambda>a. olabel a = wy) (arcs fy ny) = None
      \<longrightarrow> fst_consume u py wy
            = Inr (None, py\<lparr>cur_node := map_option nextstate
                                 (find (\<lambda>a. olabel a = UNK_ID u) (rev (arcs fy ny)))\<rparr>))
   \<and> (\<not> fst_valid pz \<longrightarrow> fst_consume u pz wz = Inr (None, pz))
   \<and> (nfst_consume u q h wq = Some (Inr (r, q', h')) \<longrightarrow> r = None)
   \<and> (rtn_consume t g wt = Inr (r', t', g') \<longrightarrow> r' = None)"
  using fst_consume_match [of px nx fx wx ax u] fst_consume_nomatch [of py ny fy wy u]
    fst_consume_invalid [of pz u wz] nfst_consume_returns_None [of u q h wq r q' h']
    rtn_consume_returns_None [of t g wt r' t' g']
  by blast


theorem C4_consume_return_witness:
  "fst_consume example_utils example_det 5 = Inr (Some (- 2), example_det\<lparr>cur_node := Some 2\<rparr>)
   \<and> fst_consume example_utils example_det 7 = Inr (None, example_det\<lparr>cur_node := None\<rparr>)
   \<and> fst_consume example_utils (FstPredictor_init 0 True False True True) 5
       = Inr (None, FstPredictor_init 0 True False True True)
   \<and> (\<exists>q' h'. nfst_consume example_utils (fst example_nfst) (snd example_nfst) 5
                 = Some (Inr (None, q', h')))
   \<and> (\<exists>t' g'. rtn_consume (fst example_rtn) (snd example_rtn) 5 = Inr (None, t', g'))"
proof -
  let ?a = "\<lparr>ilabel = 5, olabel = 5, weight = 2, nextstate = 2\<rparr>"
  let ?new = "FstPredictor_init 0 True False True True"
  have e1: "cur_node example_det = Some 1 \<and> (0 :: int) \<le> 1 \<and> cur_fst example_det = Some example_fst
              \<and> find (\<lambda>a. olabel a = 5) (arcs example_fst 1) = Some ?a"
    by (simp add: example_det_def example_fst_def)
  have e2: "cur_node example_det = Some 1 \<and> (0 :: int) \<le> 1 \<and> cur_fst example_det = Some example_fst
              \<and> find (\<lambda>a. olabel a = 7) (arcs example_fst 1) = None"
    by (simp add: example_det_def example_fst_def)
  have e3: "\<not> fst_valid ?new"
    by (simp add: fst_valid_def FstPredictor_init_def)
  have "\<exists>r q' h'. nfst_consume example_utils (fst example_nfst) (snd example_nfst) 5
                     = Some (Inr (r, q', h'))"
    by (simp add: example_nfst_def nfst_eval)
  then obtain r q' h'
    where e4: "nfst_consume example_utils (fst example_nfst) (snd example_nfst) 5
                 = Some (Inr (r, q', h'))"
    by blast
  have "\<exists>r' t' g'. rtn_consume (fst example_rtn) (snd example_rtn) 5 = Inr (r', t', g')"
    by (simp add: example_rtn_def rtn_consume_def)
  then obtain r' t' g'
    where e5: "rtn_consume (fst example_rtn) (snd example_rtn) 5 = Inr (r', t', g')"
    by blast
  note T = C4_consume_return_value [where px = example_det and nx = 1 and fx = example_fst
      and wx = 5 and ax = ?a and u = example_utils and py = example_det and ny = 1
      and fy = example_fst and wy = 7 and pz = ?new and wz = 5
      and q = "fst example_nfst" and h = "snd example_nfst" and wq = 5 and r = r and q' = q'
      and h' = h' and t = "fst example_rtn" and g = "snd example_rtn" and wt = 5 and r' = r'
      and t' = t' and g' = g']
  from T e1 have c1: "fst_consume example_utils example_det 5
      = Inr (Some (weight_factor example_det * weight ?a), example_det\<lparr>cur_node := Some (nextstate ?a)\<rparr>)"
    by blast
  from T e2 have c2: "fst_consume example_utils example_det 7
      = Inr (None, example_det\<lparr>cur_node := map_option nextstate
               (find (\<lambda>a. olabel a = UNK_ID example_utils) (rev (arcs example_fst 1)))\<rparr>)"
    by blast
  from T e3 have c3: "fst_consume example_utils ?new 5 = Inr (None, ?new)"
    by blast
  from T e4 have c4: "r = None" by blast
  from T e5 have c5: "r' = None" by blast
  from c1 have d1: "fst_consume example_utils example_det 5
                      = Inr (Some (- 2), example_det\<lparr>cur_node := Some 2\<rparr>)"
    by (simp add: example_det_def FstPredictor_init_def)
  from c2 have d2: "fst_consume example_utils example_det 7
                      = Inr (None, example_det\<lparr>cur_node := None\<rparr>)"
    by (simp add: example_fst_def example_utils_def)
  from d1 d2 c3 e4 c4 e5 c5 show ?thesis by blast
qed

text \<open>The claim as stated fails: on a predictor that is already invalid the
  deterministic \<open>consume\<close> returns \<open>None\<close> rather than 0, and the nondeterministic
  \<open>consume\<close> returns \<open>None\<close> after following the arc of weight 2.\<close>

theorem C4_consume_return_counterexample:
  "fst_consume example_utils (FstPredictor_init 0 True False True True) 5
     = Inr (None, FstPredictor_init 0 True False True True)
   \<and> (\<exists>q' h'. nfst_consume example_utils (fst example_nfst) (snd example_nfst) 5
                 = Some (Inr (None, q', h'))
               \<and> cells h' (cur_nodes q') = [])"
  by (simp add: example_nfst_def nfst_eval fst_consume_def FstPredictor_init_def)


subsection \<open>Scores of the deterministic predictor after initialize\<close>

lemma map_of_fold_update_unique:
  assumes "a \<in> set as \<or> map_of sc0 (k a) = Some (g a)"
    and "\<forall>b \<in> set as. k b = k a \<longrightarrow> g b = g a"
  shows "map_of (fold (\<lambda>a sc. AList.update (k a) (g a) sc) as sc0) (k a) = Some (g a)"
  using assms
proof (induction as arbitrary: sc0)
  case Nil
  then show ?case by simp
next
  case (Cons x xs)
  have "a \<in> set xs \<or> map_of (AList.update (k x) (g x) sc0) (k a) = Some (g a)"
    using Cons.prems by (auto simp: update_conv')
  moreover have "\<forall>b \<in> set xs. k b = k a \<longrightarrow> g b = g a"
    using Cons.prems by simp
  ultimately show ?case
    using Cons.IH [of "AList.update (k x) (g x) sc0"] by simp
qed

lemma fst_initialize_fields:
  assumes "fst_initialize u p loaded = Inr p'"
  shows "cur_fst p' = loaded" "weight_factor p' = weight_factor p"
    "use_weights p' = use_weights p" "normalize_scores p' = normalize_scores p"
    "add_bos_to_eos_score p' = add_bos_to_eos_score p"
  using assms
  by (auto simp: fst_initialize_def fst_consume_def logging_def Let_def
           split: option.splits if_splits sum.splits prod.splits)

text \<open>C6, amended: the claim with "weights on, normalisation off" added. For the
  deterministic predictor with \<open>use_weights=true\<close>, \<open>normalize_scores=false\<close>,
  \<open>to_log=true\<close> and \<open>skip_bos_weight=true\<close>: on the example automaton, \<open>predict_next\<close>
  after \<open>initialize\<close> returns exactly \<open>{5: -2.0}\<close>; on any automaton, if \<open>initialize\<close>
  leaves the predictor at a node \<open>n\<close> and \<open>a\<close> is the only arc of \<open>n\<close> with its label,
  \<open>predict_next\<close> gives that label the score \<open>- weight a\<close>.\<close>

theorem C6_start_scores:
  "(\<exists>p. fst_initialize example_utils (FstPredictor_init 0 True False True True)
            (Some example_fst) = Inr p
         \<and> fst_predict_next example_utils p = Inr [(5, - 2)])
   \<and> (fst_initialize u (FstPredictor_init sen True False True True) (Some f) = Inr p'
        \<and> cur_node p' = Some n \<and> 0 \<le> n \<and> a \<in> set (arcs f n)
        \<and> (\<forall>b \<in> set (arcs f n). olabel b = olabel a \<longrightarrow> b = a)
      \<longrightarrow> (\<exists>post. fst_predict_next u p' = Inr post
                  \<and> map_of post (olabel a) = Some (- weight a)))"
proof (intro conjI impI)
  show "\<exists>p. fst_initialize example_utils (FstPredictor_init 0 True False True True)
              (Some example_fst) = Inr p
           \<and> fst_predict_next example_utils p = Inr [(5, - 2)]"
    by (simp add: fst_eval)
next
  assume h: "fst_initialize u (FstPredictor_init sen True False True True) (Some f) = Inr p'
        \<and> cur_node p' = Some n \<and> 0 \<le> n \<and> a \<in> set (arcs f n)
        \<and> (\<forall>b \<in> set (arcs f n). olabel b = olabel a \<longrightarrow> b = a)"
  let ?scores = "fold (\<lambda>a sc. AList.update (olabel a) (weight_factor p' * w2f (weight a)) sc)
                      (arcs f n) []"
  from h have fields: "cur_fst p' = Some f" "weight_factor p' = - 1" "use_weights p'"
      "\<not> normalize_scores p'" "\<not> add_bos_to_eos_score p'"
    using fst_initialize_fields [of u "FstPredictor_init sen True False True True" "Some f" p']
    by (simp_all add: FstPredictor_init_def)
  from h have "\<forall>b \<in> set (arcs f n). olabel b = olabel a
                 \<longrightarrow> weight_factor p' * w2f (weight b) = weight_factor p' * w2f (weight a)"
    by auto
  with h have "map_of ?scores (olabel a) = Some (weight_factor p' * w2f (weight a))"
    by (intro map_of_fold_update_unique) auto
  then have look: "map_of ?scores (olabel a) = Some (- weight a)"
    by (simp add: fields w2f_def)
  from h fields have "fst_predict_next u p' = Inr ?scores"
    by (simp add: fst_predict_next_def finalize_posterior_def Let_def split: option.splits)
  with look show "\<exists>post. fst_predict_next u p' = Inr post
                  \<and> map_of post (olabel a) = Some (- weight a)"
    by blast
qed


theorem C6_start_scores_witness:
  "\<exists>p'. fst_initialize example_utils (FstPredictor_init 0 True False True True)
           (Some example_fst) = Inr p'
        \<and> cur_node p' = Some 1
        \<and> (\<exists>post. fst_predict_next example_utils p' = Inr post \<and> map_of post 5 = Some (- 2))"
proof -
  let ?a = "\<lparr>ilabel = 5, olabel = 5, weight = 2, nextstate = 2\<rparr>"
  have "\<exists>p'. fst_initialize example_utils (FstPredictor_init 0 True False True True)
                (Some example_fst) = Inr p' \<and> cur_node p' = Some 1"
    by (simp add: fst_eval)
  then obtain p'
    where i: "fst_initialize example_utils (FstPredictor_init 0 True False True True)
                (Some example_fst) = Inr p'"
      and c: "cur_node p' = Some 1"
    by blast
  have arcs: "?a \<in> set (arcs example_fst 1)
              \<and> (\<forall>b \<in> set (arcs example_fst 1). olabel b = olabel ?a \<longrightarrow> b = ?a)"
    by (simp add: example_fst_def)
  from C6_start_scores [where u = example_utils and sen = 0 and f = example_fst and p' = p'
      and n = 1 and a = ?a] i c arcs
  have "\<exists>post. fst_predict_next example_utils p' = Inr post
               \<and> map_of post (olabel ?a) = Some (- weight ?a)"
    by simp
  with i c show ?thesis by auto
qed

text \<open>The claim as stated fixes only \<open>to_log\<close> and \<open>skip_bos_weight\<close>: with
  \<open>use_weights=false\<close> the same calls return \<open>{5: 0.0}\<close>.\<close>

theorem C6_start_scores_counterexample:
  "\<exists>p. fst_initialize example_utils (FstPredictor_init 0 False False True True)
          (Some example_fst) = Inr p
       \<and> fst_predict_next example_utils p = Inr [(5, 0)]"
  by (simp add: fst_eval)

subsection \<open>Root resolution of the RTN predictor\<close>

lemma sorted_le_last:
  fixes ys :: "'a :: linorder list"
  shows "sorted ys \<Longrightarrow> y \<in> set ys \<Longrightarrow> y \<le> last ys"
  by (induction ys) auto

lemma last_sort_Max:
  fixes xs :: "'a :: linorder list"
  assumes "xs \<noteq> []"
  shows "last (sort xs) = Max (set xs)"
proof -
  have ne: "sort xs \<noteq> []"
    using assms by (metis length_0_conv length_sort)
  have "Max (set (sort xs)) = last (sort xs)"
  proof (rule Max_eqI)
    show "finite (set (sort xs))" by simp
    show "last (sort xs) \<in> set (sort xs)" using ne by (rule last_in_set)
    fix y assume "y \<in> set (sort xs)"
    then show "y \<le> last (sort xs)"
      using sorted_sort [of xs] by (rule_tac sorted_le_last)
  qed
  then show ?thesis by simp
qed

lemma rtn_consume_keeps:
  "rtn_consume p h w = Inr (r, p', h') \<Longrightarrow> p' = p"
  by (auto simp: rtn_consume_def split: option.splits)

lemma rtn_consume_all_keeps:
  "rtn_consume_all p h ws = Inr (p', h') \<Longrightarrow> p' = p"
  by (induction ws arbitrary: h) (auto split: sum.splits dest: rtn_consume_keeps)

lemma rtn_consume_all_returns:
  "cur_history p \<noteq> None \<Longrightarrow> \<exists>h'. rtn_consume_all p h ws = Inr (p, h')"
  by (induction ws arbitrary: h) (auto simp: rtn_consume_def)

lemma rtn_predict_next_invalid:
  "cur_fst p = None \<Longrightarrow> rtn_predict_next expand_rtn p h = Inr ([], p)"
  by (simp add: rtn_predict_next_def)


lemma rtn_initialize_found:
  assumes "rtn_root_file fs p = (p1, Some name)"
  shows "\<exists>h'. rtn_initialize fs u p h
               = Inr ((rtn_read_root fs p1 name)\<lparr>cur_history := Some (next_ref h), sub_fsts := []\<rparr>, h')"
  using assms by (simp add: rtn_initialize_def rtn_reset_def alloc_def rtn_consume_def)

lemma rtn_initialize_not_found:
  assumes "rtn_root_file fs p = (p1, None)"
  shows "\<exists>h'. rtn_initialize fs u p h
               = Inr (p1\<lparr>cur_fst := None, cur_history := Some (next_ref h), sub_fsts := []\<rparr>, h')"
  using assms by (simp add: rtn_initialize_def rtn_reset_def alloc_def)

lemma rtn_root_file_logged:
  assumes "rtn_root_file fs p = (p1, x)"
  shows "\<exists>ms. logged p1 = logged p @ ms"
  using assms
  by (auto simp: rtn_root_file_def logging_def Let_def split: if_splits)

lemma rtn_invalid_stays:
  assumes "cur_fst q' = None" and "cur_history q' \<noteq> None"
  shows "\<exists>g''. rtn_consume_all q' g' ws = Inr (q', g'')
               \<and> rtn_predict_next expand_rtn q' g'' = Inr ([], q')"
  using rtn_consume_all_returns [OF assms(2), of g' ws] rtn_predict_next_invalid [OF assms(1)]
  by auto

lemma rtn_start_id_default:
  assumes "open_lines fs (rtn_path @ ''/ntmap'') = None"
  shows "rtn_start_id fs rtn_path = (''1'', True)"
  using assms by (simp add: rtn_start_id_def)

lemma rtn_init_default:
  assumes "open_lines fs (rtn_path @ ''/ntmap'') = None"
  shows "root_fst_prefix (RtnPredictor_init fs sen rtn_path uw nrm lg mn rm) = ''1001000''"
    and "logged (RtnPredictor_init fs sen rtn_path uw nrm lg mn rm)
           = [(WARNING, ''Could not find NT S in ntmap. Assuming its ID 1'')]"
  using assms
  by (simp_all add: RtnPredictor_init_def rtn_start_id_def zfill_def eval_nat_numeral)

lemma rtn_ambiguous:
  assumes "\<not> access_R_OK fs (rtn_file_name p)"
    and "1 < length (glob fs (rtn_search_pattern p))"
  shows "rtn_root_file fs p
           = (logging WARNING ''Ambiguous root fst for %s. Take the one with largest span.'' p,
              Some (Max (set (glob fs (rtn_search_pattern p)))))"
proof -
  from assms(2) have ne: "glob fs (rtn_search_pattern p) \<noteq> []" by auto
  with assms show ?thesis
    by (simp add: rtn_root_file_def Let_def last_sort_Max)
qed

lemma rtn_initialize_ambiguous:
  assumes "\<not> access_R_OK fs (rtn_file_name p)"
    and "1 < length (glob fs (rtn_search_pattern p))"
  shows "\<exists>p' h' e. rtn_initialize fs u p h = Inr (p', h')
            \<and> cur_fst p' = Fst_read fs (Max (set (glob fs (rtn_search_pattern p))))
            \<and> logged p' = logged p
                 @ [(WARNING, ''Ambiguous root fst for %s. Take the one with largest span.''), e]"
  using rtn_initialize_found [OF rtn_ambiguous [OF assms], of u h]
  by (auto simp: rtn_read_root_def logging_def split: option.splits)

lemma rtn_initialize_no_candidate:
  assumes "\<not> access_R_OK fs (rtn_file_name q)" and "glob fs (rtn_search_pattern q) = []"
  shows "\<exists>q' g' ms msg. rtn_initialize fs u q g = Inr (q', g')
            \<and> cur_fst q' = None \<and> cur_history q' \<noteq> None
            \<and> logged q' = logged q @ ms @ [(ERROR, msg)]"
proof -
  from assms have "rtn_root_file fs q = (logging ERROR ''Could not find root fst in %s'' q, None)"
    by (simp add: rtn_root_file_def)
  from rtn_initialize_not_found [OF this, of u g] show ?thesis
    by (auto simp: logging_def)
qed

lemma rtn_initialize_read_fails:
  assumes "rtn_root_file fs q = (q1, Some name)" and "Fst_read fs name = None"
  shows "\<exists>q' g' ms msg. rtn_initialize fs u q g = Inr (q', g')
            \<and> cur_fst q' = None \<and> cur_history q' \<noteq> None
            \<and> logged q' = logged q @ ms @ [(ERROR, msg)]"
proof -
  from rtn_root_file_logged [OF assms(1)] obtain ms where "logged q1 = logged q @ ms" by blast
  with rtn_initialize_found [OF assms(1), of u g] assms(2) show ?thesis
    by (auto simp: rtn_read_root_def logging_def)
qed

text \<open>C7. Root resolution of the RTN predictor. When the \<open>ntmap\<close> file cannot be
  opened, the start nonterminal id is \<open>1\<close> (the prefix of the root file is
  \<open>1001000\<close>) and a warning is logged. When the direct root file is not readable and
  several candidates match the pattern, \<open>initialize\<close> reads the lexicographically last
  one (the maximum of the candidates in the order of strings) and logs a warning. When
  no candidate is found, or reading the chosen file fails, \<open>initialize\<close> returns with
  no automaton, the last message logged is an error, and \<open>predict_next\<close> returns the
  empty map after any further calls of \<open>consume\<close>.\<close>

theorem C7_root_resolution:
  "(open_lines fs (rtn_path @ ''/ntmap'') = None \<longrightarrow>
      rtn_start_id fs rtn_path = (''1'', True)
      \<and> root_fst_prefix (RtnPredictor_init fs sen rtn_path uw nrm lg mn rm) = ''1001000''
      \<and> logged (RtnPredictor_init fs sen rtn_path uw nrm lg mn rm)
          = [(WARNING, ''Could not find NT S in ntmap. Assuming its ID 1'')])
   \<and> (\<not> access_R_OK fs (rtn_file_name p) \<and> 1 < length (glob fs (rtn_search_pattern p)) \<longrightarrow>
        (\<exists>p' h' e. rtn_initialize fs u p h = Inr (p', h')
            \<and> cur_fst p' = Fst_read fs (Max (set (glob fs (rtn_search_pattern p))))
            \<and> logged p' = logged p
                 @ [(WARNING, ''Ambiguous root fst for %s. Take the one with largest span.''), e]))
   \<and> ((\<not> access_R_OK fs (rtn_file_name q) \<and> glob fs (rtn_search_pattern q) = [])
        \<or> (\<exists>q1 name. rtn_root_file fs q = (q1, Some name) \<and> Fst_read fs name = None) \<longrightarrow>
        (\<exists>q' g' ms msg. rtn_initialize fs u q g = Inr (q', g')
            \<and> cur_fst q' = None
            \<and> logged q' = logged q @ ms @ [(ERROR, msg)]
            \<and> (\<forall>ws. \<exists>g''. rtn_consume_all q' g' ws = Inr (q', g'')
                         \<and> rtn_predict_next expand_rtn q' g'' = Inr ([], q'))))"
proof (intro conjI impI)
  assume "open_lines fs (rtn_path @ ''/ntmap'') = None"
  then show "rtn_start_id fs rtn_path = (''1'', True)"
    and "root_fst_prefix (RtnPredictor_init fs sen rtn_path uw nrm lg mn rm) = ''1001000''"
    and "logged (RtnPredictor_init fs sen rtn_path uw nrm lg mn rm)
          = [(WARNING, ''Could not find NT S in ntmap. Assuming its ID 1'')]"
    by (rule rtn_start_id_default, rule rtn_init_default(1), rule rtn_init_default(2))
next
  assume "\<not> access_R_OK fs (rtn_file_name p) \<and> 1 < length (glob fs (rtn_search_pattern p))"
  then show "\<exists>p' h' e. rtn_initialize fs u p h = Inr (p', h')
            \<and> cur_fst p' = Fst_read fs (Max (set (glob fs (rtn_search_pattern p))))
            \<and> logged p' = logged p
                 @ [(WARNING, ''Ambiguous root fst for %s. Take the one with largest span.''), e]"
    using rtn_initialize_ambiguous by blast
next
  assume "(\<not> access_R_OK fs (rtn_file_name q) \<and> glob fs (rtn_search_pattern q) = [])
        \<or> (\<exists>q1 name. rtn_root_file fs q = (q1, Some name) \<and> Fst_read fs name = None)"
  then have "\<exists>q' g' ms msg. rtn_initialize fs u q g = Inr (q', g')
            \<and> cur_fst q' = None \<and> cur_history q' \<noteq> None
            \<and> logged q' = logged q @ ms @ [(ERROR, msg)]"
    using rtn_initialize_no_candidate [of fs q u g] rtn_initialize_read_fails [of fs q _ _ u g]
    by blast
  then obtain q' g' ms msg
    where i: "rtn_initialize fs u q g = Inr (q', g')"
      and c: "cur_fst q' = None" and hst: "cur_history q' \<noteq> None"
      and l: "logged q' = logged q @ ms @ [(ERROR, msg)]"
    by blast
  from rtn_invalid_stays [OF c hst]
  have "\<forall>ws. \<exists>g''. rtn_consume_all q' g' ws = Inr (q', g'')
                   \<and> rtn_predict_next expand_rtn q' g'' = Inr ([], q')"
    by blast
  with i c l show "\<exists>q' g' ms msg. rtn_initialize fs u q g = Inr (q', g')
            \<and> cur_fst q' = None
            \<and> logged q' = logged q @ ms @ [(ERROR, msg)]
            \<and> (\<forall>ws. \<exists>g''. rtn_consume_all q' g' ws = Inr (q', g'')
                         \<and> rtn_predict_next expand_rtn q' g'' = Inr ([], q'))"
    by blast
qed


lemmas rtn_eval =
  rtn_file_name_def rtn_search_pattern_def rtn_root_file_def RtnPredictor_init_def
  rtn_start_id_def example_fs_def format_d_def zfill_def eval_nat_numeral

theorem C7_root_resolution_witness:
  "open_lines example_fs (''rtn'' @ ''/ntmap'') = None
   \<and> root_fst_prefix (RtnPredictor_init example_fs 0 ''rtn'' True False True False True) = ''1001000''
   \<and> glob example_fs (rtn_search_pattern (RtnPredictor_init example_fs 0 ''rtn'' True False True False True))
       = [''rtn/1/1001000010.fst'', ''rtn/1/1001000002.fst'']
   \<and> (\<exists>p' h'. rtn_initialize example_fs example_utils
                  (RtnPredictor_init example_fs 0 ''rtn'' True False True False True) empty_store
                = Inr (p', h')
              \<and> cur_fst p' = Fst_read example_fs ''rtn/1/1001000010.fst'')
   \<and> (\<forall>expand_rtn. \<exists>q' g' g''.
          rtn_initialize example_fs example_utils
            (RtnPredictor_init example_fs 1 ''rtn'' True False True False True) empty_store
          = Inr (q', g')
        \<and> cur_fst q' = None
        \<and> rtn_consume_all q' g' [5, 6] = Inr (q', g'')
        \<and> rtn_predict_next expand_rtn q' g'' = Inr ([], q'))
   \<and> (\<forall>expand_rtn. \<exists>q' g' g''.
          rtn_initialize example_fs example_utils
            (RtnPredictor_init example_fs 2 ''rtn'' True False True False True) empty_store
          = Inr (q', g')
        \<and> cur_fst q' = None
        \<and> rtn_consume_all q' g' [5, 6] = Inr (q', g'')
        \<and> rtn_predict_next expand_rtn q' g'' = Inr ([], q'))"
proof -
  let ?P1 = "RtnPredictor_init example_fs 0 ''rtn'' True False True False True"
  let ?P2 = "RtnPredictor_init example_fs 1 ''rtn'' True False True False True"
  let ?P3 = "RtnPredictor_init example_fs 2 ''rtn'' True False True False True"
  have n: "open_lines example_fs (''rtn'' @ ''/ntmap'') = None"
    by (simp add: example_fs_def)
  have g1: "glob example_fs (rtn_search_pattern ?P1)
              = [''rtn/1/1001000010.fst'', ''rtn/1/1001000002.fst'']"
    by (simp add: rtn_eval)
  have a1: "\<not> access_R_OK example_fs (rtn_file_name ?P1)
            \<and> 1 < length (glob example_fs (rtn_search_pattern ?P1))"
    by (simp add: g1) (simp add: example_fs_def)
  have a2: "\<not> access_R_OK example_fs (rtn_file_name ?P2)
            \<and> glob example_fs (rtn_search_pattern ?P2) = []"
    by (simp add: rtn_eval)
  have a3: "\<exists>q1 name. rtn_root_file example_fs ?P3 = (q1, Some name)
              \<and> Fst_read example_fs name = None"
    by (simp add: rtn_eval)
  have m: "Max (set [''rtn/1/1001000010.fst'', ''rtn/1/1001000002.fst'']) = ''rtn/1/1001000010.fst''"
    by simp
  note T1 = C7_root_resolution [where fs = example_fs and rtn_path = "''rtn''" and sen = 0
      and uw = True and nrm = False and lg = True and mn = False and rm = True
      and p = ?P1 and u = example_utils and h = empty_store and q = ?P2 and g = empty_store]
  note T2 = C7_root_resolution [where fs = example_fs and rtn_path = "''rtn''" and sen = 0
      and uw = True and nrm = False and lg = True and mn = False and rm = True
      and p = ?P1 and u = example_utils and h = empty_store and q = ?P3 and g = empty_store]
  from T1 n have c1: "root_fst_prefix ?P1 = ''1001000''" by blast
  from T1 a1 have "\<exists>p' h'. rtn_initialize example_fs example_utils ?P1 empty_store = Inr (p', h')
            \<and> cur_fst p' = Fst_read example_fs (Max (set (glob example_fs (rtn_search_pattern ?P1))))"
    by blast
  then have c2: "\<exists>p' h'. rtn_initialize example_fs example_utils ?P1 empty_store = Inr (p', h')
            \<and> cur_fst p' = Fst_read example_fs ''rtn/1/1001000010.fst''"
    by (simp only: g1 m)
  from T1 a2 have c3: "\<forall>expand_rtn. \<exists>q' g' g''.
          rtn_initialize example_fs example_utils ?P2 empty_store = Inr (q', g')
        \<and> cur_fst q' = None
        \<and> rtn_consume_all q' g' [5, 6] = Inr (q', g'')
        \<and> rtn_predict_next expand_rtn q' g'' = Inr ([], q')"
    by blast
  from T2 a3 have c4: "\<forall>expand_rtn. \<exists>q' g' g''.
          rtn_initialize example_fs example_utils ?P3 empty_store = Inr (q', g')
        \<and> cur_fst q' = None
        \<and> rtn_consume_all q' g' [5, 6] = Inr (q', g'')
        \<and> rtn_predict_next expand_rtn q' g'' = Inr ([], q')"
    by blast
  from n c1 g1 c2 c3 c4 show ?thesis by blast
qed

subsection \<open>initialize without a usable automaton\<close>

lemma finalize_posterior_Nil: "finalize_posterior [] uw nrm = []"
  by (simp add: finalize_posterior_def Let_def)

lemma fst_invalid_stays:
  assumes "\<not> fst_valid p"
  shows "fst_consume_all u p ws = Inr p" and "fst_predict_next u p = Inr []"
proof -
  show "fst_consume_all u p ws = Inr p"
    by (induction ws) (simp_all add: fst_consume_invalid [OF assms])
  from assms show "fst_predict_next u p = Inr []"
    by (auto simp: fst_valid_def fst_predict_next_def split: option.splits)
qed

lemma fst_initialize_missing:
  "fst_initialize u p None
     = Inr (logging WARNING ''The lattice for sentence %d does not contain any valid path.''
              (p\<lparr>cur_fst := None, cur_node := None, bos_score := Some 0\<rparr>))"
  by (simp add: fst_initialize_def fst_consume_def)

lemma fst_initialize_no_begin:
  assumes "0 \<le> start f"
    and "\<forall>a \<in> set (arcs f (start f)). olabel a \<noteq> GO_ID u \<and> olabel a \<noteq> UNK_ID u"
  shows "fst_initialize u p (Some f)
     = Inr (logging WARNING ''The lattice for sentence %d does not contain any valid path.''
              (p\<lparr>cur_fst := Some f, cur_node := None, bos_score := Some 0\<rparr>))"
proof -
  from assms(2) have "find (\<lambda>a. olabel a = GO_ID u) (arcs f (start f)) = None"
    and "find (\<lambda>a. olabel a = UNK_ID u) (rev (arcs f (start f))) = None"
    by (auto simp: find_None_iff)
  with assms(1) show ?thesis
    by (simp add: fst_initialize_def fst_consume_def fst_consume_arcs_find)
qed

lemma fst_initialize_stateless:
  assumes "start f < 0"
  shows "fst_initialize u p (Some f)
     = Inr (p\<lparr>cur_fst := Some f, cur_node := Some (start f), bos_score := Some 0\<rparr>)"
  using assms by (simp add: fst_initialize_def fst_consume_def)

lemma consume_arcs_no_match:
  "\<forall>a \<in> set as. olabel a \<noteq> word \<Longrightarrow> fold (nfst_consume_arc factor word w) as d = d"
  by (induction as arbitrary: d) (simp_all add: nfst_consume_arc_def)

lemma nfst_unconsumed_no_match:
  assumes "\<forall>e \<in> set nodes. \<forall>a \<in> set (arcs f (snd e)). olabel a \<noteq> word"
  shows "nfst_unconsumed factor f word nodes = []"
proof -
  have "fold (\<lambda>(w, node) d. fold (nfst_consume_arc factor word w) (arcs f node) d) nodes d = d"
    for d
    using assms
  proof (induction nodes arbitrary: d)
    case Nil
    show ?case by simp
  next
    case (Cons e nodes)
    obtain w node where e: "e = (w, node)" by (cases e)
    from Cons.prems e have "\<forall>a \<in> set (arcs f node). olabel a \<noteq> word" by simp
    then have "fold (nfst_consume_arc factor word w) (arcs f node) d = d"
      by (rule consume_arcs_no_match)
    moreover from Cons.prems have "\<forall>e \<in> set nodes. \<forall>a \<in> set (arcs f (snd e)). olabel a \<noteq> word"
      by simp
    ultimately show ?case using Cons.IH by (simp add: e)
  qed
  then show ?thesis by (simp add: nfst_unconsumed_def)
qed

lemma nfst_consume_begin_no_match:
  assumes sk: "\<not> skip_bos_weight q"
    and nm: "cur_fst q = None \<and> cells h (cur_nodes q) = []
             \<or> (\<exists>f. cur_fst q = Some f
                   \<and> (\<forall>e \<in> set (cells h (cur_nodes q)).
                         \<forall>a \<in> set (arcs f (snd e)). olabel a \<noteq> GO_ID u))"
  shows "nfst_consume u q h (GO_ID u)
           = Some (Inr (None, q\<lparr>cur_nodes := next_ref h\<rparr>,
                        h\<lparr>cells := (cells h)(next_ref h := []), next_ref := Suc (next_ref h)\<rparr>))"
  using nm
proof
  assume "cur_fst q = None \<and> cells h (cur_nodes q) = []"
  with sk show ?thesis
    by (simp add: nfst_consume_def follow_eps_def alloc_def)
next
  assume "\<exists>f. cur_fst q = Some f
                   \<and> (\<forall>e \<in> set (cells h (cur_nodes q)).
                         \<forall>a \<in> set (arcs f (snd e)). olabel a \<noteq> GO_ID u)"
  then obtain f where f: "cur_fst q = Some f"
    and n: "\<forall>e \<in> set (cells h (cur_nodes q)). \<forall>a \<in> set (arcs f (snd e)). olabel a \<noteq> GO_ID u"
    by blast
  from nfst_unconsumed_no_match [OF n]
  have "nfst_unconsumed (weight_factor q) f (GO_ID u) (cells h (cur_nodes q)) = []" .
  with sk f show ?thesis
    by (simp add: nfst_consume_def follow_eps_def alloc_def)
qed

lemma nfst_empty_consume:
  assumes e: "cells h (cur_nodes q) = []"
    and c: "nfst_consume u q h w = Some (Inr (r, q', h'))"
  shows "cells h' (cur_nodes q') = []"
proof -
  have d: "(case cur_fst q of None \<Rightarrow> []
            | Some f \<Rightarrow> nfst_unconsumed (weight_factor q) f w []) = []"
    by (simp add: nfst_unconsumed_def split: option.splits)
  from c show ?thesis
    unfolding nfst_consume_def Let_def e d
    by (auto simp: follow_eps_def alloc_def split: if_splits sum.splits)
qed

lemma nfst_empty_stays:
  assumes "cells h (cur_nodes q) = []"
    and "nfst_consume_all u q h ws = Some (Inr (q', h'))"
  shows "nfst_predict_next q' h' = Inr []"
proof -
  from assms have "cells h' (cur_nodes q') = []"
  proof (induction ws arbitrary: q h)
    case Nil
    then show ?case by simp
  next
    case (Cons w ws)
    from Cons.prems(2) obtain r q1 h1
      where s: "nfst_consume u q h w = Some (Inr (r, q1, h1))"
        and a: "nfst_consume_all u q1 h1 ws = Some (Inr (q', h'))"
      by (auto split: sum.splits option.splits)
    from nfst_empty_consume [OF Cons.prems(1) s] have "cells h1 (cur_nodes q1) = []" .
    from Cons.IH [OF this a] show ?case .
  qed
  then show ?thesis
    by (simp add: nfst_predict_next_def finalize_posterior_Nil)
qed


lemma nfst_initialize_missing:
  assumes "\<not> skip_bos_weight q"
  shows "\<exists>q' h'. nfst_initialize u q h None = Some (Inr (q', h'))
           \<and> cells h' (cur_nodes q') = []
           \<and> logged q' = logged q
                @ [(WARNING, ''The lattice for sentence %d does not contain any valid path.'')]"
  using assms
  by (simp add: nfst_initialize_def nfst_consume_def alloc_def follow_eps_def logging_def)

lemma nfst_initialize_missing_raises:
  assumes "skip_bos_weight q"
  shows "nfst_initialize u q h None = Some (Inl ValueError)"
  using assms
  by (simp add: nfst_initialize_def nfst_consume_def alloc_def follow_eps_def call1_def)

lemma nfst_initialize_no_begin:
  assumes sk: "\<not> skip_bos_weight q"
    and cl: "follow_eps_fst (weight_factor q) f [(start f, 0)] = Some fr"
    and nm: "\<forall>e \<in> set fr. \<forall>a \<in> set (arcs f (snd e)). olabel a \<noteq> GO_ID u"
  shows "\<exists>q' h'. nfst_initialize u q h (Some f) = Some (Inr (q', h'))
           \<and> cells h' (cur_nodes q') = []
           \<and> logged q' = logged q
                @ [(WARNING, ''The lattice for sentence %d does not contain any valid path.'')]"
proof -
  let ?p2 = "q\<lparr>cur_fst := Some f, cur_nodes := next_ref h\<rparr>"
  let ?h1 = "h\<lparr>cells := (cells h)(next_ref h := []), next_ref := Suc (next_ref h)\<rparr>"
  let ?p3 = "?p2\<lparr>cur_nodes := Suc (next_ref h)\<rparr>"
  let ?h3 = "?h1\<lparr>cells := (cells ?h1)(Suc (next_ref h) := fr),
                   next_ref := Suc (Suc (next_ref h))\<rparr>"
  from cl have fe: "follow_eps ?p2 [(start f, 0)] = Some (Inr fr)"
    by (simp add: follow_eps_def)
  have sk3: "\<not> skip_bos_weight ?p3" using sk by simp
  have "\<exists>g. cur_fst ?p3 = Some g
            \<and> (\<forall>e \<in> set (cells ?h3 (cur_nodes ?p3)).
                  \<forall>a \<in> set (arcs g (snd e)). olabel a \<noteq> GO_ID u)"
    using nm by simp
  then have c: "nfst_consume u ?p3 ?h3 (GO_ID u)
           = Some (Inr (None, ?p3\<lparr>cur_nodes := next_ref ?h3\<rparr>,
                        ?h3\<lparr>cells := (cells ?h3)(next_ref ?h3 := []),
                            next_ref := Suc (next_ref ?h3)\<rparr>))"
    by (intro nfst_consume_begin_no_match [OF sk3] disjI2)
  have "nfst_initialize u q h (Some f)
          = Some (Inr (logging WARNING
                         ''The lattice for sentence %d does not contain any valid path.''
                         (?p3\<lparr>cur_nodes := next_ref ?h3\<rparr>),
                       ?h3\<lparr>cells := (cells ?h3)(next_ref ?h3 := []),
                           next_ref := Suc (next_ref ?h3)\<rparr>))"
    unfolding nfst_initialize_def Let_def alloc_def
    using c by (simp add: fe)
  then show ?thesis by (simp add: logging_def)
qed

lemma nfst_consume_begin_raises:
  assumes sk: "skip_bos_weight q"
    and nm: "cur_fst q = None \<and> cells h (cur_nodes q) = []
             \<or> (\<exists>f. cur_fst q = Some f
                   \<and> (\<forall>e \<in> set (cells h (cur_nodes q)).
                         \<forall>a \<in> set (arcs f (snd e)). olabel a \<noteq> GO_ID u))"
  shows "nfst_consume u q h (GO_ID u) = Some (Inl ValueError)"
  using nm
proof
  assume "cur_fst q = None \<and> cells h (cur_nodes q) = []"
  with sk show ?thesis
    by (simp add: nfst_consume_def call1_def)
next
  assume "\<exists>f. cur_fst q = Some f
                   \<and> (\<forall>e \<in> set (cells h (cur_nodes q)).
                         \<forall>a \<in> set (arcs f (snd e)). olabel a \<noteq> GO_ID u)"
  then obtain f where f: "cur_fst q = Some f"
    and n: "\<forall>e \<in> set (cells h (cur_nodes q)). \<forall>a \<in> set (arcs f (snd e)). olabel a \<noteq> GO_ID u"
    by blast
  from nfst_unconsumed_no_match [OF n]
  have "nfst_unconsumed (weight_factor q) f (GO_ID u) (cells h (cur_nodes q)) = []" .
  with sk f show ?thesis
    by (simp add: nfst_consume_def call1_def)
qed

lemma nfst_initialize_no_begin_raises:
  assumes sk: "skip_bos_weight q"
    and cl: "follow_eps_fst (weight_factor q) f [(start f, 0)] = Some fr"
    and nm: "\<forall>e \<in> set fr. \<forall>a \<in> set (arcs f (snd e)). olabel a \<noteq> GO_ID u"
  shows "nfst_initialize u q h (Some f) = Some (Inl ValueError)"
proof -
  let ?p2 = "q\<lparr>cur_fst := Some f, cur_nodes := next_ref h\<rparr>"
  let ?h1 = "h\<lparr>cells := (cells h)(next_ref h := []), next_ref := Suc (next_ref h)\<rparr>"
  let ?p3 = "?p2\<lparr>cur_nodes := Suc (next_ref h)\<rparr>"
  let ?h3 = "?h1\<lparr>cells := (cells ?h1)(Suc (next_ref h) := fr),
                   next_ref := Suc (Suc (next_ref h))\<rparr>"
  from cl have fe: "follow_eps ?p2 [(start f, 0)] = Some (Inr fr)"
    by (simp add: follow_eps_def)
  have sk3: "skip_bos_weight ?p3" using sk by simp
  have "\<exists>g. cur_fst ?p3 = Some g
            \<and> (\<forall>e \<in> set (cells ?h3 (cur_nodes ?p3)).
                  \<forall>a \<in> set (arcs g (snd e)). olabel a \<noteq> GO_ID u)"
    using nm by simp
  then have c: "nfst_consume u ?p3 ?h3 (GO_ID u) = Some (Inl ValueError)"
    by (intro nfst_consume_begin_raises [OF sk3] disjI2)
  show ?thesis
    unfolding nfst_initialize_def Let_def alloc_def
    using c by (simp add: fe)
qed

text \<open>C3. The claim: for every predictor variant, \<open>initialize\<close> on a missing or empty
  automaton, or on one with no path containing the begin marker, never raises, makes
  the predictor invalid and logs a warning. The code of the nondeterministic predictor
  configured to skip the begin-marker weight (the default): \<open>initialize\<close> calls
  \<open>consume\<close> on the begin marker, no arc is found, \<open>d_unconsumed\<close> stays empty, and
  \<open>max\<close> of its values raises \<open>ValueError\<close> before the warning of \<open>initialize\<close> is
  reached; so when the automaton is missing, and so when no member of the first
  frontier has an arc labelled with the begin marker. The code of the deterministic
  predictor on an automaton without states: the current node is \<open>-1\<close>, not \<open>None\<close>, so
  the test that guards the warning fails and nothing is logged.\<close>

theorem C3_initialize_raises:
  "(skip_bos_weight q \<longrightarrow> nfst_initialize u q h None = Some (Inl ValueError))
   \<and> (skip_bos_weight q
        \<and> follow_eps_fst (weight_factor q) k [(start k, 0)] = Some fr
        \<and> (\<forall>e \<in> set fr. \<forall>a \<in> set (arcs k (snd e)). olabel a \<noteq> GO_ID u) \<longrightarrow>
        nfst_initialize u q h (Some k) = Some (Inl ValueError))
   \<and> (start g < 0 \<longrightarrow>
        (\<exists>p'. fst_initialize u p (Some g) = Inr p'
           \<and> cur_node p' = Some (start g)
           \<and> logged p' = logged p))"
proof (intro conjI impI)
  assume "skip_bos_weight q"
  then show "nfst_initialize u q h None = Some (Inl ValueError)"
    by (rule nfst_initialize_missing_raises)
next
  assume "skip_bos_weight q
        \<and> follow_eps_fst (weight_factor q) k [(start k, 0)] = Some fr
        \<and> (\<forall>e \<in> set fr. \<forall>a \<in> set (arcs k (snd e)). olabel a \<noteq> GO_ID u)"
  then have a1: "skip_bos_weight q"
    and a2: "follow_eps_fst (weight_factor q) k [(start k, 0)] = Some fr"
    and a3: "\<forall>e \<in> set fr. \<forall>a \<in> set (arcs k (snd e)). olabel a \<noteq> GO_ID u"
    by blast+
  from a1 a2 a3 show "nfst_initialize u q h (Some k) = Some (Inl ValueError)"
    by (rule nfst_initialize_no_begin_raises)
next
  assume "start g < 0"
  then have "fst_initialize u p (Some g)
     = Inr (p\<lparr>cur_fst := Some g, cur_node := Some (start g), bos_score := Some 0\<rparr>)"
    by (rule fst_initialize_stateless)
  then show "\<exists>p'. fst_initialize u p (Some g) = Inr p'
           \<and> cur_node p' = Some (start g)
           \<and> logged p' = logged p"
    by simp
qed

theorem C3_initialize_raises_witness:
  "skip_bos_weight (fst (NondeterministicFstPredictor_init empty_store 0 True False True True))
   \<and> nfst_initialize example_utils
        (fst (NondeterministicFstPredictor_init empty_store 0 True False True True))
        (snd (NondeterministicFstPredictor_init empty_store 0 True False True True)) None
      = Some (Inl ValueError)
   \<and> follow_eps_fst (- 1) no_begin_fst [(0, 0)] = Some [(0, 0)]
   \<and> map olabel (arcs no_begin_fst 0) = [5]
   \<and> GO_ID example_utils = 1
   \<and> nfst_initialize example_utils
        (fst (NondeterministicFstPredictor_init empty_store 0 True False True True))
        (snd (NondeterministicFstPredictor_init empty_store 0 True False True True))
        (Some no_begin_fst)
      = Some (Inl ValueError)
   \<and> start stateless_fst = - 1
   \<and> (\<exists>p'. fst_initialize example_utils (FstPredictor_init 0 True False True True)
              (Some stateless_fst) = Inr p'
          \<and> cur_node p' = Some (- 1)
          \<and> logged p' = [])"
proof -
  let ?P = "FstPredictor_init 0 True False True True"
  let ?Q = "fst (NondeterministicFstPredictor_init empty_store 0 True False True True)"
  let ?H = "snd (NondeterministicFstPredictor_init empty_store 0 True False True True)
              :: frontier store"
  have sk: "skip_bos_weight ?Q" and wq: "weight_factor ?Q = - 1"
    by (simp_all add: NondeterministicFstPredictor_init_def alloc_def)
  have lp: "logged ?P = []" by (simp add: FstPredictor_init_def)
  have st: "start stateless_fst = - 1" by (simp add: stateless_fst_def)
  have cl: "follow_eps_fst (- 1) no_begin_fst [(0, 0)] = Some [(0, 0)]"
    by (simp add: no_begin_fst_def nfst_eval Let_def)
  have cl': "follow_eps_fst (weight_factor ?Q) no_begin_fst [(start no_begin_fst, 0)]
               = Some [(0, 0)]"
    using cl by (simp add: wq) (simp add: no_begin_fst_def)
  have lb: "map olabel (arcs no_begin_fst 0) = [5]" and go: "GO_ID example_utils = 1"
    by (simp_all add: no_begin_fst_def example_utils_def)
  have nm: "\<forall>e \<in> set [(0 :: real, 0 :: int)].
              \<forall>a \<in> set (arcs no_begin_fst (snd e)). olabel a \<noteq> GO_ID example_utils"
    by (simp add: no_begin_fst_def example_utils_def)
  note T = C3_initialize_raises [where u = example_utils and q = ?Q and h = ?H
      and k = no_begin_fst and fr = "[(0, 0)]" and g = stateless_fst and p = ?P]
  from T sk have c1: "nfst_initialize example_utils ?Q ?H None = Some (Inl ValueError)"
    by blast
  from T sk cl' nm
  have c2: "nfst_initialize example_utils ?Q ?H (Some no_begin_fst) = Some (Inl ValueError)"
    by blast
  from T st lp
  have c3: "\<exists>p'. fst_initialize example_utils ?P (Some stateless_fst) = Inr p'
          \<and> cur_node p' = Some (- 1) \<and> logged p' = []"
    by simp
  from sk c1 cl lb go c2 st c3 show ?thesis by blast
qed

text \<open>Where the behaviour claimed for \<open>initialize\<close> holds, variant by variant.
  Deterministic predictor: when the automaton is missing, and when its start state has
  neither a begin-marker arc nor an unknown-word arc, \<open>initialize\<close> returns, leaves no
  current node and logs a warning; on an automaton without states it returns and
  leaves the predictor invalid; in all three cases \<open>predict_next\<close> returns the empty
  map after any further calls of \<open>consume\<close>. Nondeterministic predictor configured not
  to skip the begin-marker weight: when the automaton is missing, and when no member of
  the first frontier has a begin-marker arc, \<open>initialize\<close> returns with an empty
  frontier and logs a warning, and \<open>predict_next\<close> returns the empty map after every
  sequence of \<open>consume\<close> calls that returns. RTN predictor: when no root file is found
  or reading it fails, \<open>initialize\<close> returns with no automaton, the last message logged
  is an error, and \<open>predict_next\<close> returns the empty map after any further calls of
  \<open>consume\<close>.\<close>

lemma initialize_without_automaton:
  "(\<exists>p'. fst_initialize u p None = Inr p'
         \<and> cur_node p' = None
         \<and> logged p' = logged p
              @ [(WARNING, ''The lattice for sentence %d does not contain any valid path.'')]
         \<and> (\<forall>ws. fst_consume_all u p' ws = Inr p' \<and> fst_predict_next u p' = Inr []))
   \<and> (0 \<le> start f
        \<and> (\<forall>a \<in> set (arcs f (start f)). olabel a \<noteq> GO_ID u \<and> olabel a \<noteq> UNK_ID u) \<longrightarrow>
        (\<exists>p'. fst_initialize u p (Some f) = Inr p'
           \<and> cur_node p' = None
           \<and> logged p' = logged p
                @ [(WARNING, ''The lattice for sentence %d does not contain any valid path.'')]
           \<and> (\<forall>ws. fst_consume_all u p' ws = Inr p' \<and> fst_predict_next u p' = Inr [])))
   \<and> (start g < 0 \<longrightarrow>
        (\<exists>p'. fst_initialize u p (Some g) = Inr p'
           \<and> \<not> fst_valid p'
           \<and> (\<forall>ws. fst_consume_all u p' ws = Inr p' \<and> fst_predict_next u p' = Inr [])))
   \<and> (\<not> skip_bos_weight q \<longrightarrow>
        (\<exists>q' h'. nfst_initialize u q h None = Some (Inr (q', h'))
           \<and> cells h' (cur_nodes q') = []
           \<and> logged q' = logged q
                @ [(WARNING, ''The lattice for sentence %d does not contain any valid path.'')]
           \<and> (\<forall>ws q'' h''. nfst_consume_all u q' h' ws = Some (Inr (q'', h''))
                  \<longrightarrow> nfst_predict_next q'' h'' = Inr [])))
   \<and> (\<not> skip_bos_weight q
        \<and> follow_eps_fst (weight_factor q) k [(start k, 0)] = Some fr
        \<and> (\<forall>e \<in> set fr. \<forall>a \<in> set (arcs k (snd e)). olabel a \<noteq> GO_ID u) \<longrightarrow>
        (\<exists>q' h'. nfst_initialize u q h (Some k) = Some (Inr (q', h'))
           \<and> cells h' (cur_nodes q') = []
           \<and> logged q' = logged q
                @ [(WARNING, ''The lattice for sentence %d does not contain any valid path.'')]
           \<and> (\<forall>ws q'' h''. nfst_consume_all u q' h' ws = Some (Inr (q'', h''))
                  \<longrightarrow> nfst_predict_next q'' h'' = Inr [])))
   \<and> ((\<not> access_R_OK fs (rtn_file_name t) \<and> glob fs (rtn_search_pattern t) = [])
        \<or> (\<exists>t1 name. rtn_root_file fs t = (t1, Some name) \<and> Fst_read fs name = None) \<longrightarrow>
        (\<exists>t' g' ms msg. rtn_initialize fs u t g0 = Inr (t', g')
            \<and> cur_fst t' = None
            \<and> logged t' = logged t @ ms @ [(ERROR, msg)]
            \<and> (\<forall>ws. \<exists>g''. rtn_consume_all t' g' ws = Inr (t', g'')
                         \<and> rtn_predict_next expand_rtn t' g'' = Inr ([], t'))))"
proof (intro conjI impI)
  let ?msg = "''The lattice for sentence %d does not contain any valid path.''"
  let ?p' = "logging WARNING ?msg (p\<lparr>cur_fst := None, cur_node := None, bos_score := Some 0\<rparr>)"
  have inv: "\<not> fst_valid ?p'" by (simp add: fst_valid_def logging_def)
  have "fst_initialize u p None = Inr ?p'" by (rule fst_initialize_missing)
  moreover have "cur_node ?p' = None" "logged ?p' = logged p @ [(WARNING, ?msg)]"
    by (simp_all add: logging_def)
  moreover have "\<forall>ws. fst_consume_all u ?p' ws = Inr ?p' \<and> fst_predict_next u ?p' = Inr []"
    using fst_invalid_stays [OF inv] by blast
  ultimately show "\<exists>p'. fst_initialize u p None = Inr p'
         \<and> cur_node p' = None
         \<and> logged p' = logged p @ [(WARNING, ?msg)]
         \<and> (\<forall>ws. fst_consume_all u p' ws = Inr p' \<and> fst_predict_next u p' = Inr [])"
    by blast
next
  let ?msg = "''The lattice for sentence %d does not contain any valid path.''"
  let ?p' = "logging WARNING ?msg (p\<lparr>cur_fst := Some f, cur_node := None, bos_score := Some 0\<rparr>)"
  assume a: "0 \<le> start f
        \<and> (\<forall>a \<in> set (arcs f (start f)). olabel a \<noteq> GO_ID u \<and> olabel a \<noteq> UNK_ID u)"
  have inv: "\<not> fst_valid ?p'" by (simp add: fst_valid_def logging_def)
  from a have "fst_initialize u p (Some f) = Inr ?p'"
    using fst_initialize_no_begin [of f u p] by blast
  moreover have "cur_node ?p' = None" "logged ?p' = logged p @ [(WARNING, ?msg)]"
    by (simp_all add: logging_def)
  moreover have "\<forall>ws. fst_consume_all u ?p' ws = Inr ?p' \<and> fst_predict_next u ?p' = Inr []"
    using fst_invalid_stays [OF inv] by blast
  ultimately show "\<exists>p'. fst_initialize u p (Some f) = Inr p'
           \<and> cur_node p' = None
           \<and> logged p' = logged p @ [(WARNING, ?msg)]
           \<and> (\<forall>ws. fst_consume_all u p' ws = Inr p' \<and> fst_predict_next u p' = Inr [])"
    by blast
next
  let ?p' = "p\<lparr>cur_fst := Some g, cur_node := Some (start g), bos_score := Some 0\<rparr>"
  assume a: "start g < 0"
  then have inv: "\<not> fst_valid ?p'" by (simp add: fst_valid_def)
  from a have "fst_initialize u p (Some g) = Inr ?p'" by (rule fst_initialize_stateless)
  moreover have "\<forall>ws. fst_consume_all u ?p' ws = Inr ?p' \<and> fst_predict_next u ?p' = Inr []"
    using fst_invalid_stays [OF inv] by blast
  ultimately show "\<exists>p'. fst_initialize u p (Some g) = Inr p'
           \<and> \<not> fst_valid p'
           \<and> (\<forall>ws. fst_consume_all u p' ws = Inr p' \<and> fst_predict_next u p' = Inr [])"
    using inv by blast
next
  assume "\<not> skip_bos_weight q"
  from nfst_initialize_missing [OF this, of u h] obtain q' h'
    where i: "nfst_initialize u q h None = Some (Inr (q', h'))"
      and e: "cells h' (cur_nodes q') = []"
      and l: "logged q' = logged q
                @ [(WARNING, ''The lattice for sentence %d does not contain any valid path.'')]"
    by blast
  from nfst_empty_stays [OF e]
  have "\<forall>ws q'' h''. nfst_consume_all u q' h' ws = Some (Inr (q'', h''))
                  \<longrightarrow> nfst_predict_next q'' h'' = Inr []"
    by blast
  with i e l show "\<exists>q' h'. nfst_initialize u q h None = Some (Inr (q', h'))
           \<and> cells h' (cur_nodes q') = []
           \<and> logged q' = logged q
                @ [(WARNING, ''The lattice for sentence %d does not contain any valid path.'')]
           \<and> (\<forall>ws q'' h''. nfst_consume_all u q' h' ws = Some (Inr (q'', h''))
                  \<longrightarrow> nfst_predict_next q'' h'' = Inr [])"
    by blast
next
  assume a: "\<not> skip_bos_weight q
        \<and> follow_eps_fst (weight_factor q) k [(start k, 0)] = Some fr
        \<and> (\<forall>e \<in> set fr. \<forall>a \<in> set (arcs k (snd e)). olabel a \<noteq> GO_ID u)"
  then have a1: "\<not> skip_bos_weight q"
    and a2: "follow_eps_fst (weight_factor q) k [(start k, 0)] = Some fr"
    and a3: "\<forall>e \<in> set fr. \<forall>a \<in> set (arcs k (snd e)). olabel a \<noteq> GO_ID u"
    by blast+
  from nfst_initialize_no_begin [OF a1 a2 a3, of h] obtain q' h'
    where i: "nfst_initialize u q h (Some k) = Some (Inr (q', h'))"
      and e: "cells h' (cur_nodes q') = []"
      and l: "logged q' = logged q
                @ [(WARNING, ''The lattice for sentence %d does not contain any valid path.'')]"
    by blast
  from nfst_empty_stays [OF e]
  have "\<forall>ws q'' h''. nfst_consume_all u q' h' ws = Some (Inr (q'', h''))
                  \<longrightarrow> nfst_predict_next q'' h'' = Inr []"
    by blast
  with i e l show "\<exists>q' h'. nfst_initialize u q h (Some k) = Some (Inr (q', h'))
           \<and> cells h' (cur_nodes q') = []
           \<and> logged q' = logged q
                @ [(WARNING, ''The lattice for sentence %d does not contain any valid path.'')]
           \<and> (\<forall>ws q'' h''. nfst_consume_all u q' h' ws = Some (Inr (q'', h''))
                  \<longrightarrow> nfst_predict_next q'' h'' = Inr [])"
    by blast
next
  assume "(\<not> access_R_OK fs (rtn_file_name t) \<and> glob fs (rtn_search_pattern t) = [])
        \<or> (\<exists>t1 name. rtn_root_file fs t = (t1, Some name) \<and> Fst_read fs name = None)"
  then have "\<exists>t' g' ms msg. rtn_initialize fs u t g0 = Inr (t', g')
            \<and> cur_fst t' = None \<and> cur_history t' \<noteq> None
            \<and> logged t' = logged t @ ms @ [(ERROR, msg)]"
    using rtn_initialize_no_candidate [of fs t u g0] rtn_initialize_read_fails [of fs t _ _ u g0]
    by blast
  then obtain t' g' ms msg
    where i: "rtn_initialize fs u t g0 = Inr (t', g')"
      and c: "cur_fst t' = None" and hst: "cur_history t' \<noteq> None"
      and l: "logged t' = logged t @ ms @ [(ERROR, msg)]"
    by blast
  from rtn_invalid_stays [OF c hst]
  have "\<forall>ws. \<exists>g''. rtn_consume_all t' g' ws = Inr (t', g'')
                   \<and> rtn_predict_next expand_rtn t' g'' = Inr ([], t')"
    by blast
  with i c l show "\<exists>t' g' ms msg. rtn_initialize fs u t g0 = Inr (t', g')
            \<and> cur_fst t' = None
            \<and> logged t' = logged t @ ms @ [(ERROR, msg)]
            \<and> (\<forall>ws. \<exists>g''. rtn_consume_all t' g' ws = Inr (t', g'')
                         \<and> rtn_predict_next expand_rtn t' g'' = Inr ([], t'))"
    by blast
qed

lemma initialize_without_automaton_example:
  "(\<exists>p'. fst_initialize example_utils (FstPredictor_init 0 True False True True) (Some no_begin_fst)
           = Inr p'
         \<and> cur_node p' = None
         \<and> logged p' = [(WARNING, ''The lattice for sentence %d does not contain any valid path.'')]
         \<and> fst_consume_all example_utils p' [5, 6] = Inr p'
         \<and> fst_predict_next example_utils p' = Inr [])
   \<and> (\<exists>p'. fst_initialize example_utils (FstPredictor_init 0 True False True True)
             (Some stateless_fst) = Inr p'
         \<and> \<not> fst_valid p'
         \<and> fst_consume_all example_utils p' [5, 6] = Inr p'
         \<and> fst_predict_next example_utils p' = Inr [])
   \<and> (\<exists>q' h' q'' h''.
         nfst_initialize example_utils
           (fst (NondeterministicFstPredictor_init empty_store 0 True False False True))
           (snd (NondeterministicFstPredictor_init empty_store 0 True False False True)) None
         = Some (Inr (q', h'))
         \<and> cells h' (cur_nodes q') = []
         \<and> logged q' = [(WARNING, ''The lattice for sentence %d does not contain any valid path.'')]
         \<and> nfst_consume_all example_utils q' h' [1] = Some (Inr (q'', h''))
         \<and> nfst_predict_next q'' h'' = Inr [])
   \<and> follow_eps_fst (- 1) no_begin_fst [(0, 0)] = Some [(0, 0)]
   \<and> (\<exists>q' h' q'' h''.
         nfst_initialize example_utils
           (fst (NondeterministicFstPredictor_init empty_store 0 True False False True))
           (snd (NondeterministicFstPredictor_init empty_store 0 True False False True))
           (Some no_begin_fst)
         = Some (Inr (q', h'))
         \<and> cells h' (cur_nodes q') = []
         \<and> logged q' = [(WARNING, ''The lattice for sentence %d does not contain any valid path.'')]
         \<and> nfst_consume_all example_utils q' h' [1] = Some (Inr (q'', h''))
         \<and> nfst_predict_next q'' h'' = Inr [])
   \<and> (\<forall>expand_rtn. \<exists>t' g' g''.
          rtn_initialize example_fs example_utils
            ((fst example_rtn)\<lparr>current_sen_id := 1\<rparr>) (snd example_rtn) = Inr (t', g')
        \<and> cur_fst t' = None
        \<and> rtn_consume_all t' g' [5, 6] = Inr (t', g'')
        \<and> rtn_predict_next expand_rtn t' g'' = Inr ([], t'))"
proof -
  let ?P = "FstPredictor_init 0 True False True True"
  let ?Q = "fst (NondeterministicFstPredictor_init empty_store 0 True False False True)"
  let ?H = "snd (NondeterministicFstPredictor_init empty_store 0 True False False True)
              :: frontier store"
  let ?T = "(fst example_rtn)\<lparr>current_sen_id := 1\<rparr>"
  let ?W = "(WARNING, ''The lattice for sentence %d does not contain any valid path.'')"
  have sk: "\<not> skip_bos_weight ?Q" and lq: "logged ?Q = []" and wq: "weight_factor ?Q = - 1"
    by (simp_all add: NondeterministicFstPredictor_init_def alloc_def)
  have lp: "logged ?P = []" by (simp add: FstPredictor_init_def)
  have nb: "0 \<le> start no_begin_fst
        \<and> (\<forall>a \<in> set (arcs no_begin_fst (start no_begin_fst)).
              olabel a \<noteq> GO_ID example_utils \<and> olabel a \<noteq> UNK_ID example_utils)"
    by (simp add: no_begin_fst_def example_utils_def)
  have st: "start stateless_fst < 0" by (simp add: stateless_fst_def)
  have cl: "follow_eps_fst (- 1) no_begin_fst [(0, 0)] = Some [(0, 0)]"
    by (simp add: no_begin_fst_def nfst_eval Let_def)
  have cl': "follow_eps_fst (weight_factor ?Q) no_begin_fst [(start no_begin_fst, 0)]
               = Some [(0, 0)]"
    using cl by (simp add: wq) (simp add: no_begin_fst_def)
  have nm: "\<forall>e \<in> set [(0 :: real, 0 :: int)].
              \<forall>a \<in> set (arcs no_begin_fst (snd e)). olabel a \<noteq> GO_ID example_utils"
    by (simp add: no_begin_fst_def example_utils_def)
  have nc: "\<not> access_R_OK example_fs (rtn_file_name ?T)
            \<and> glob example_fs (rtn_search_pattern ?T) = []"
    by (simp add: rtn_eval example_rtn_def)
  have e1: "\<exists>q' h' q'' h''. nfst_initialize example_utils ?Q ?H None = Some (Inr (q', h'))
              \<and> nfst_consume_all example_utils q' h' [1] = Some (Inr (q'', h''))"
    by (simp add: nfst_eval)
  have e2: "\<exists>q' h' q'' h''. nfst_initialize example_utils ?Q ?H (Some no_begin_fst)
                = Some (Inr (q', h'))
              \<and> nfst_consume_all example_utils q' h' [1] = Some (Inr (q'', h''))"
    by (simp add: no_begin_fst_def nfst_eval Let_def)
  note T = initialize_without_automaton [where u = example_utils and p = ?P
      and f = no_begin_fst and g = stateless_fst and q = ?Q and h = ?H and k = no_begin_fst
      and fr = "[(0, 0)]" and fs = example_fs and t = ?T and ?g0.0 = "snd example_rtn"]
  from T nb lp have c1: "\<exists>p'. fst_initialize example_utils ?P (Some no_begin_fst) = Inr p'
         \<and> cur_node p' = None \<and> logged p' = [?W]
         \<and> fst_consume_all example_utils p' [5, 6] = Inr p'
         \<and> fst_predict_next example_utils p' = Inr []"
    by (metis append_Nil)
  from T st have c2: "\<exists>p'. fst_initialize example_utils ?P (Some stateless_fst) = Inr p'
         \<and> \<not> fst_valid p'
         \<and> fst_consume_all example_utils p' [5, 6] = Inr p'
         \<and> fst_predict_next example_utils p' = Inr []"
    by blast
  from T sk lq obtain qa ha
    where a1: "nfst_initialize example_utils ?Q ?H None = Some (Inr (qa, ha))"
      and a2: "cells ha (cur_nodes qa) = []" and a3: "logged qa = [?W]"
      and a4: "\<forall>ws q'' h''. nfst_consume_all example_utils qa ha ws = Some (Inr (q'', h''))
                  \<longrightarrow> nfst_predict_next q'' h'' = Inr []"
    by (metis append_Nil)
  from e1 a1 obtain q2 h2
    where a5: "nfst_consume_all example_utils qa ha [1] = Some (Inr (q2, h2))"
    by auto
  from a4 a5 have a6: "nfst_predict_next q2 h2 = Inr []" by blast
  from T sk cl' nm lq obtain qb hb
    where b1: "nfst_initialize example_utils ?Q ?H (Some no_begin_fst) = Some (Inr (qb, hb))"
      and b2: "cells hb (cur_nodes qb) = []" and b3: "logged qb = [?W]"
      and b4: "\<forall>ws q'' h''. nfst_consume_all example_utils qb hb ws = Some (Inr (q'', h''))
                  \<longrightarrow> nfst_predict_next q'' h'' = Inr []"
    by (metis append_Nil)
  from e2 b1 obtain q3 h3
    where b5: "nfst_consume_all example_utils qb hb [1] = Some (Inr (q3, h3))"
    by auto
  from b4 b5 have b6: "nfst_predict_next q3 h3 = Inr []" by blast
  from T nc have c5: "\<forall>expand_rtn. \<exists>t' g' g''.
          rtn_initialize example_fs example_utils ?T (snd example_rtn) = Inr (t', g')
        \<and> cur_fst t' = None
        \<and> rtn_consume_all t' g' [5, 6] = Inr (t', g'')
        \<and> rtn_predict_next expand_rtn t' g'' = Inr ([], t')"
    by blast
  from c1 c2 a1 a2 a3 a5 a6 cl b1 b2 b3 b5 b6 c5 show ?thesis by blast
qed

text \<open>Two behaviours of \<open>initialize\<close> that are how the code is written. The
  deterministic predictor on an automaton without a begin-marker arc follows an
  unknown-word arc at the start state instead: it stays valid, logs nothing, and
  \<open>predict_next\<close> offers the next arc. The RTN predictor whose root file is not found
  logs an error and no warning.\<close>

lemma initialize_by_design_example:
  "(\<exists>p'. fst_initialize example_utils (FstPredictor_init 0 True False True True)
            (Some unk_start_fst) = Inr p'
         \<and> logged p' = []
         \<and> cur_node p' = Some 1
         \<and> fst_predict_next example_utils p' = Inr [(5, - 2)])
   \<and> GO_ID example_utils = 1
   \<and> map olabel (arcs unk_start_fst 0) = [UNK_ID example_utils]
   \<and> map olabel (arcs unk_start_fst 1) = [5]
   \<and> (\<exists>t' g'. rtn_initialize example_fs example_utils
                  ((fst example_rtn)\<lparr>current_sen_id := 1\<rparr>) (snd example_rtn) = Inr (t', g')
         \<and> logged t' = [(ERROR, ''Could not find root fst in %s'')])"
  by (simp add: unk_start_fst_def fst_initialize_def fst_consume_def fst_predict_next_def
        FstPredictor_init_def finalize_posterior_def example_utils_def w2f_def logging_def
        rtn_eval example_rtn_def rtn_initialize_def rtn_reset_def alloc_def)

subsection \<open>Snapshots\<close>

lemma fst_consume_frame:
  "fst_consume u p w = Inr (r, p') \<Longrightarrow> \<exists>n. p' = p\<lparr>cur_node := n\<rparr>"
proof -
  assume a: "fst_consume u p w = Inr (r, p')"
  show ?thesis
  proof (cases "fst_valid p")
    case False
    from fst_consume_invalid [OF this, of u w] a have "p' = p" by simp
    then have "p' = p\<lparr>cur_node := cur_node p\<rparr>" by simp
    then show ?thesis by blast
  next
    case True
    then obtain n where n: "cur_node p = Some n" "0 \<le> n"
      by (auto simp: fst_valid_def split: option.splits)
    with a obtain f where f: "cur_fst p = Some f"
      by (auto simp: fst_consume_def split: option.splits)
    from a n f show ?thesis
      by (auto simp: fst_consume_def split: prod.splits)
  qed
qed

lemma fst_consume_all_frame:
  "fst_consume_all u p ws = Inr p' \<Longrightarrow> \<exists>n. p' = p\<lparr>cur_node := n\<rparr>"
proof (induction ws arbitrary: p)
  case Nil
  then have "p' = p\<lparr>cur_node := cur_node p\<rparr>" by simp
  then show ?case by blast
next
  case (Cons w ws)
  from Cons.prems obtain r p1
    where s: "fst_consume u p w = Inr (r, p1)" and a: "fst_consume_all u p1 ws = Inr p'"
    by (auto split: sum.splits)
  from fst_consume_frame [OF s] obtain n where "p1 = p\<lparr>cur_node := n\<rparr>" by blast
  moreover from Cons.IH [OF a] obtain m where "p' = p1\<lparr>cur_node := m\<rparr>" by blast
  ultimately have "p' = p\<lparr>cur_node := m\<rparr>" by simp
  then show ?case by blast
qed

lemma fst_restore:
  assumes "fst_consume_all u p ws = Inr p'"
  shows "fst_set_state p' (fst_get_state p) = p"
proof -
  from fst_consume_all_frame [OF assms] obtain n where "p' = p\<lparr>cur_node := n\<rparr>" by blast
  then show ?thesis by (simp add: fst_set_state_def fst_get_state_def)
qed


lemma nfst_consume_frame:
  assumes "nfst_consume u p h w = Some (Inr (r, p', h'))"
  shows "\<exists>fr. p' = p\<lparr>cur_nodes := next_ref h\<rparr>
              \<and> h' = h\<lparr>cells := (cells h)(next_ref h := fr), next_ref := Suc (next_ref h)\<rparr>"
proof -
  let ?d = "case cur_fst p of None \<Rightarrow> []
            | Some f \<Rightarrow> nfst_unconsumed (weight_factor p) f w (cells h (cur_nodes p))"
  let ?c = "if w \<noteq> GO_ID u \<or> skip_bos_weight p
            then call1 (score_max_func p) (map snd ?d) else Inr 0"
  from assms have ne: "\<not> (cells h (cur_nodes p) \<noteq> [] \<and> cur_fst p = None)"
    by (auto simp: nfst_consume_def Let_def split: if_splits)
  with assms obtain cs where cs: "?c = Inr cs"
    by (cases ?c) (auto simp: nfst_consume_def Let_def)
  let ?roots = "map (\<lambda>(node, score). (node, score - cs)) ?d"
  from assms ne cs obtain fr where fr: "follow_eps p ?roots = Some (Inr fr)"
    by (cases "follow_eps p ?roots") (auto simp: nfst_consume_def Let_def split: sum.splits)
  from assms ne cs fr show ?thesis
    by (auto simp add: nfst_consume_def Let_def alloc_def)
qed


lemma nfst_consume_all_frame:
  assumes "nfst_consume_all u p h ws = Some (Inr (p', h'))"
  shows "(\<exists>n. p' = p\<lparr>cur_nodes := n\<rparr>) \<and> next_ref h \<le> next_ref h'
         \<and> (\<forall>s. s < next_ref h \<longrightarrow> cells h' s = cells h s)"
  using assms
proof (induction ws arbitrary: p h)
  case Nil
  then have "p' = p\<lparr>cur_nodes := cur_nodes p\<rparr>" and "h' = h" by simp_all
  then have "\<exists>n. p' = p\<lparr>cur_nodes := n\<rparr>" and "h' = h" by blast+
  then show ?case by simp
next
  case (Cons w ws)
  from Cons.prems obtain r p1 h1
    where s: "nfst_consume u p h w = Some (Inr (r, p1, h1))"
      and a: "nfst_consume_all u p1 h1 ws = Some (Inr (p', h'))"
    by (auto split: sum.splits option.splits)
  from nfst_consume_frame [OF s] obtain fr
    where p1: "p1 = p\<lparr>cur_nodes := next_ref h\<rparr>"
      and h1: "h1 = h\<lparr>cells := (cells h)(next_ref h := fr), next_ref := Suc (next_ref h)\<rparr>"
    by blast
  from Cons.IH [OF a] obtain n
    where p': "p' = p1\<lparr>cur_nodes := n\<rparr>" and le: "next_ref h1 \<le> next_ref h'"
      and c: "\<forall>s. s < next_ref h1 \<longrightarrow> cells h' s = cells h1 s"
    by blast
  from p1 p' have "p' = p\<lparr>cur_nodes := n\<rparr>" by simp
  moreover from h1 le have "next_ref h \<le> next_ref h'" by simp
  moreover from h1 c have "\<forall>s. s < next_ref h \<longrightarrow> cells h' s = cells h s" by simp
  ultimately show ?case by blast
qed

lemma nfst_restore:
  assumes "nfst_get_state q < next_ref h"
    and "nfst_consume_all u q h ws = Some (Inr (q', h'))"
  shows "cells h' (nfst_get_state q) = cells h (nfst_get_state q)"
    and "nfst_predict_next (nfst_set_state q' (nfst_get_state q)) h' = nfst_predict_next q h"
proof -
  from nfst_consume_all_frame [OF assms(2)] obtain n
    where q': "q' = q\<lparr>cur_nodes := n\<rparr>"
      and c: "\<forall>s. s < next_ref h \<longrightarrow> cells h' s = cells h s"
    by blast
  from c assms(1) show e: "cells h' (nfst_get_state q) = cells h (nfst_get_state q)" by blast
  from q' have r: "nfst_set_state q' (nfst_get_state q) = q"
    by (simp add: nfst_set_state_def nfst_get_state_def)
  from e show "nfst_predict_next (nfst_set_state q' (nfst_get_state q)) h' = nfst_predict_next q h"
    unfolding r by (simp add: nfst_predict_next_def nfst_get_state_def)
qed

lemma rtn_consume_aliases:
  assumes "rtn_get_state t = Some s" and "rtn_consume t g w = Inr (r, t', g')"
  shows "rtn_get_state t' = Some s" and "cells g' s = cells g s @ [w]"
  using assms by (auto simp: rtn_get_state_def rtn_consume_def)

text \<open>C2, amended. \<open>get_state\<close> copies nothing: it returns the current node (a number
  or \<open>None\<close>), a reference to the frontier list, or a reference to the history list.
  For the deterministic and the nondeterministic predictor no call of \<open>consume\<close>
  changes what was captured (the nondeterministic \<open>consume\<close> binds \<open>cur_nodes\<close> to a new
  list), and \<open>set_state\<close> of the snapshot after any sequence of \<open>consume\<close> calls gives
  back the predictor of the time of capture, hence the same \<open>predict_next\<close>. For the RTN
  predictor the snapshot is the live history: \<open>consume\<close> appends the word to the very
  list the snapshot refers to.\<close>

theorem C2_snapshots:
  "(fst_consume_all u p ws = Inr p' \<longrightarrow>
      fst_set_state p' (fst_get_state p) = p
      \<and> fst_predict_next u (fst_set_state p' (fst_get_state p)) = fst_predict_next u p)
   \<and> (nfst_get_state q < next_ref h \<and> nfst_consume_all u q h vs = Some (Inr (q', h')) \<longrightarrow>
        cells h' (nfst_get_state q) = cells h (nfst_get_state q)
        \<and> nfst_predict_next (nfst_set_state q' (nfst_get_state q)) h' = nfst_predict_next q h)
   \<and> (rtn_get_state t = Some s \<and> rtn_consume t g w = Inr (r, t', g') \<longrightarrow>
        rtn_get_state t' = Some s \<and> cells g' s = cells g s @ [w])"
  using fst_restore [of u p ws p'] nfst_restore [of q h u vs q' h']
    rtn_consume_aliases [of t s g w r t' g']
  by simp

theorem C2_snapshots_witness:
  "(\<exists>p'. fst_consume_all example_utils example_det [5] = Inr p'
         \<and> cur_node p' = Some 2
         \<and> fst_predict_next example_utils (fst_set_state p' (fst_get_state example_det))
             = Inr [(5, - 2)])
   \<and> (\<exists>q' h'. nfst_consume_all example_utils (fst example_nfst) (snd example_nfst) [5]
                 = Some (Inr (q', h'))
         \<and> cur_nodes q' \<noteq> nfst_get_state (fst example_nfst)
         \<and> cells h' (nfst_get_state (fst example_nfst)) = [(0, 1)]
         \<and> nfst_predict_next (nfst_set_state q' (nfst_get_state (fst example_nfst))) h'
             = Inr [(5, - 2)])
   \<and> (\<exists>s t' g'. rtn_get_state (fst example_rtn) = Some s
         \<and> rtn_consume (fst example_rtn) (snd example_rtn) 5 = Inr (None, t', g')
         \<and> rtn_get_state t' = Some s
         \<and> cells g' s = [1, 5])"
proof -
  have "\<exists>p'. fst_consume_all example_utils example_det [5] = Inr p' \<and> cur_node p' = Some 2"
    by (simp add: example_det_def fst_eval)
  then obtain p'
    where a1: "fst_consume_all example_utils example_det [5] = Inr p'"
      and a2: "cur_node p' = Some 2"
    by blast
  have a3: "fst_predict_next example_utils example_det = Inr [(5, - 2)]"
    by (simp add: example_det_def fst_eval)
  have "\<exists>q' h'. nfst_consume_all example_utils (fst example_nfst) (snd example_nfst) [5]
                  = Some (Inr (q', h')) \<and> cur_nodes q' \<noteq> nfst_get_state (fst example_nfst)"
    by (simp add: example_nfst_def nfst_eval nfst_get_state_def)
  then obtain q' h'
    where b1: "nfst_consume_all example_utils (fst example_nfst) (snd example_nfst) [5]
                 = Some (Inr (q', h'))"
      and b2: "cur_nodes q' \<noteq> nfst_get_state (fst example_nfst)"
    by blast
  have b3: "nfst_get_state (fst example_nfst) < next_ref (snd example_nfst)"
    by (simp add: example_nfst_def nfst_get_state_def)
  have b4: "cells (snd example_nfst) (nfst_get_state (fst example_nfst)) = [(0, 1)]"
    by (simp add: example_nfst_def nfst_get_state_def)
  have b5: "nfst_predict_next (fst example_nfst) (snd example_nfst) = Inr [(5, - 2)]"
    by (simp add: example_nfst_def nfst_predict_next_def nfst_scores_def nfst_predict_arc_def
          finalize_posterior_def example_fst_def EPS_ID_def w2f_def)
  have "\<exists>r t' g'. rtn_consume (fst example_rtn) (snd example_rtn) 5 = Inr (r, t', g')"
    by (simp add: example_rtn_def rtn_consume_def)
  then obtain r t' g'
    where c1: "rtn_consume (fst example_rtn) (snd example_rtn) 5 = Inr (r, t', g')"
    by blast
  have c2: "rtn_get_state (fst example_rtn) = Some 0"
    and c3: "cells (snd example_rtn) 0 = [1]"
    by (simp_all add: example_rtn_def rtn_get_state_def)
  from rtn_consume_returns_None [OF c1] have c4: "r = None" .
  note T = C2_snapshots [where u = example_utils and p = example_det and ws = "[5]" and p' = p'
      and q = "fst example_nfst" and h = "snd example_nfst" and vs = "[5]" and q' = q'
      and h' = h' and t = "fst example_rtn" and s = 0 and g = "snd example_rtn" and w = 5
      and r = r and t' = t' and g' = g']
  from T a1 a3 have d1: "fst_predict_next example_utils (fst_set_state p' (fst_get_state example_det))
             = Inr [(5, - 2)]"
    by simp
  from T b1 b3 b4 b5 have d2: "cells h' (nfst_get_state (fst example_nfst)) = [(0, 1)]
         \<and> nfst_predict_next (nfst_set_state q' (nfst_get_state (fst example_nfst))) h'
             = Inr [(5, - 2)]"
    by simp
  from T c1 c2 c3 have d3: "rtn_get_state t' = Some 0 \<and> cells g' 0 = [1, 5]"
    by simp
  from a1 a2 d1 b1 b2 d2 c1 c2 c4 d3 show ?thesis by blast
qed

text \<open>The claim as stated fails for the RTN predictor: the snapshot taken when the
  history was \<open>[1]\<close> reads \<open>[1, 5]\<close> after \<open>consume(5)\<close> on the live predictor.\<close>

theorem C2_snapshots_counterexample:
  "\<exists>s t' g'. rtn_get_state (fst example_rtn) = Some s
     \<and> rtn_consume (fst example_rtn) (snd example_rtn) 5 = Inr (None, t', g')
     \<and> cells (snd example_rtn) s = [1]
     \<and> cells g' s = [1, 5]"
  by (simp add: example_rtn_def rtn_get_state_def rtn_consume_def)

subsection \<open>consume of the nondeterministic predictor\<close>

lemma keep_max_append: "keep_max v (xs @ ys) = keep_max (keep_max v xs) ys"
  by (induction xs arbitrary: v) simp_all

lemma Max_insert_max:
  fixes A :: "real set"
  assumes "finite A"
  shows "Max (insert (max y x) A) = Max (insert y (insert x A))"
proof (cases "A = {}")
  case True
  then show ?thesis by simp
next
  case False
  with assms show ?thesis by (simp add: max.assoc)
qed

lemma keep_max_Some: "keep_max (Some y) xs = Some (Max (insert y (set xs)))"
proof (induction xs arbitrary: y)
  case Nil
  show ?case by simp
next
  case (Cons x xs)
  have step: "(if y < x then Some x else Some y) = Some (max y x)"
    by (simp add: max_def)
  have "keep_max (Some y) (x # xs) = keep_max (Some (max y x)) xs"
    by (simp only: keep_max.simps option.case step)
  also have "\<dots> = Some (Max (insert (max y x) (set xs)))"
    by (rule Cons.IH)
  also have "\<dots> = Some (Max (insert y (set (x # xs))))"
    by (simp add: Max_insert_max)
  finally show ?case .
qed

lemma keep_max_None: "keep_max None xs = (if xs = [] then None else Some (Max (set xs)))"
  by (cases xs) (simp_all add: keep_max_Some)

lemma consume_arc_map_of:
  "map_of (nfst_consume_arc factor word w a d) n =
     keep_max (map_of d n)
       (map (\<lambda>a. w + factor * w2f (weight a))
            (filter (\<lambda>a. olabel a = word \<and> nextstate a = n) [a]))"
  by (auto simp: nfst_consume_arc_def Let_def update_conv' split: option.splits)

lemma consume_arcs_map_of:
  "map_of (fold (nfst_consume_arc factor word w) as d) n =
     keep_max (map_of d n)
       (map (\<lambda>a. w + factor * w2f (weight a))
            (filter (\<lambda>a. olabel a = word \<and> nextstate a = n) as))"
proof (induction as arbitrary: d)
  case Nil
  show ?case by simp
next
  case (Cons a as)
  have "map_of (fold (nfst_consume_arc factor word w) (a # as) d) n
          = keep_max (map_of (nfst_consume_arc factor word w a d) n)
              (map (\<lambda>a. w + factor * w2f (weight a))
                   (filter (\<lambda>a. olabel a = word \<and> nextstate a = n) as))"
    by (simp add: Cons.IH)
  also have "\<dots> = keep_max (map_of d n)
        (map (\<lambda>a. w + factor * w2f (weight a))
             (filter (\<lambda>a. olabel a = word \<and> nextstate a = n) [a])
         @ map (\<lambda>a. w + factor * w2f (weight a))
             (filter (\<lambda>a. olabel a = word \<and> nextstate a = n) as))"
    by (simp only: consume_arc_map_of keep_max_append)
  finally show ?case by simp
qed

lemma unconsumed_fold_map_of:
  "map_of (fold (\<lambda>(w, node) d. fold (nfst_consume_arc factor word w) (arcs f node) d) nodes d) n =
     keep_max (map_of d n) (reach_scores factor f word nodes n)"
proof (induction nodes arbitrary: d)
  case Nil
  show ?case by (simp add: reach_scores_def)
next
  case (Cons e nodes)
  obtain w node where e: "e = (w, node)" by (cases e)
  show ?case
    by (simp add: e Cons.IH consume_arcs_map_of keep_max_append reach_scores_def)
qed

lemma nfst_unconsumed_map_of:
  "map_of (nfst_unconsumed factor f word nodes) n =
     (if reach_scores factor f word nodes n = [] then None
      else Some (Max (set (reach_scores factor f word nodes n))))"
  by (simp add: nfst_unconsumed_def unconsumed_fold_map_of keep_max_None)

lemma consume_arc_distinct:
  "distinct (map fst d) \<Longrightarrow> distinct (map fst (nfst_consume_arc factor word w a d))"
  by (simp add: nfst_consume_arc_def Let_def distinct_update)

lemma consume_arcs_distinct:
  "distinct (map fst d) \<Longrightarrow> distinct (map fst (fold (nfst_consume_arc factor word w) as d))"
  by (induction as arbitrary: d) (simp_all add: consume_arc_distinct)

lemma nfst_unconsumed_distinct: "distinct (map fst (nfst_unconsumed factor f word nodes))"
proof -
  have "distinct (map fst d) \<Longrightarrow>
        distinct (map fst (fold (\<lambda>(w, node) d. fold (nfst_consume_arc factor word w) (arcs f node) d)
                             nodes d))" for d
    by (induction nodes arbitrary: d) (auto simp: consume_arcs_distinct)
  from this [of "[]"] show ?thesis by (simp add: nfst_unconsumed_def)
qed

lemma call1_py_max: "xs \<noteq> [] \<Longrightarrow> call1 py_max xs = Inr (Max (set xs))"
proof (cases xs)
  case Nil
  assume "xs \<noteq> []" with Nil show ?thesis by simp
next
  case (Cons x r)
  have "(\<lambda>y acc. call2 py_max acc y) = (max :: real \<Rightarrow> real \<Rightarrow> real)"
    by (auto simp: call2_def fun_eq_iff)
  with Max.set_eq_fold [of x r] show ?thesis
    by (simp add: call1_def Cons)
qed

lemma call1_py_min: "xs \<noteq> [] \<Longrightarrow> call1 py_min xs = Inr (Min (set xs))"
proof (cases xs)
  case Nil
  assume "xs \<noteq> []" with Nil show ?thesis by simp
next
  case (Cons x r)
  have "(\<lambda>y acc. call2 py_min acc y) = (min :: real \<Rightarrow> real \<Rightarrow> real)"
    by (auto simp: call2_def fun_eq_iff)
  with Min.set_eq_fold [of x r] show ?thesis
    by (simp add: call1_def Cons)
qed



text \<open>C5, amended. When some arc labelled \<open>word\<close> leaves a frontier member, \<open>consume(word)\<close>
  of the nondeterministic predictor builds a map \<open>d\<close> that holds, for every state reached
  over such an arc, the maximum of the scores that reach it, and for no other state. It
  subtracts from all of them the best of these scores (their maximum when
  \<open>score_max_func\<close> is \<open>max\<close>, i.e. with \<open>to_log\<close>, their minimum otherwise), except when
  \<open>word\<close> is the begin marker and the predictor is configured not to skip the
  begin-marker weight (\<open>skip_bos_weight=false\<close>), in which case nothing is subtracted.
  The new frontier is the epsilon closure of the result, and \<open>consume\<close> does not return
  if the closure does not.\<close>

theorem C5_consume_renormalises:
  assumes "cur_fst p = Some f"
    and "(w, node) \<in> set (cells h (cur_nodes p))"
    and "a \<in> set (arcs f node)"
    and "olabel a = word"
  shows "\<exists>d. d \<noteq> [] \<and> distinct (map fst d)
     \<and> (\<forall>n. map_of d n =
              (if reach_scores (weight_factor p) f word (cells h (cur_nodes p)) n = [] then None
               else Some (Max (set (reach_scores (weight_factor p) f word
                                      (cells h (cur_nodes p)) n)))))
     \<and> nfst_consume u p h word =
         (let consumed_score =
                (if word \<noteq> GO_ID u \<or> skip_bos_weight p
                 then (case score_max_func p of
                         py_max \<Rightarrow> Max (snd ` set d)
                       | py_min \<Rightarrow> Min (snd ` set d))
                 else 0)
          in case follow_eps_fst (weight_factor p) f
                    (map (\<lambda>(node, score). (node, score - consumed_score)) d) of
               None \<Rightarrow> None
             | Some fr \<Rightarrow>
                 Some (Inr (None, p\<lparr>cur_nodes := next_ref h\<rparr>,
                            h\<lparr>cells := (cells h)(next_ref h := fr),
                              next_ref := Suc (next_ref h)\<rparr>)))"
proof -
  let ?nodes = "cells h (cur_nodes p)"
  let ?d = "nfst_unconsumed (weight_factor p) f word ?nodes"
  let ?c = "if word \<noteq> GO_ID u \<or> skip_bos_weight p
            then (case score_max_func p of
                    py_max \<Rightarrow> Max (snd ` set ?d)
                  | py_min \<Rightarrow> Min (snd ` set ?d))
            else 0"
  let ?roots = "map (\<lambda>(node, score). (node, score - ?c)) ?d"
  have m: "\<forall>n. map_of ?d n =
              (if reach_scores (weight_factor p) f word ?nodes n = [] then None
               else Some (Max (set (reach_scores (weight_factor p) f word ?nodes n))))"
    by (simp add: nfst_unconsumed_map_of)
  let ?g = "\<lambda>(w, node). map (\<lambda>a. w + weight_factor p * w2f (weight a))
                            (filter (\<lambda>b. olabel b = word \<and> nextstate b = nextstate a)
                                    (arcs f node))"
  from assms(3,4) have "a \<in> set (filter (\<lambda>b. olabel b = word \<and> nextstate b = nextstate a)
                                     (arcs f node))"
    by simp
  then have "(\<lambda>a. w + weight_factor p * w2f (weight a)) a
               \<in> (\<lambda>a. w + weight_factor p * w2f (weight a))
                   ` set (filter (\<lambda>b. olabel b = word \<and> nextstate b = nextstate a)
                                 (arcs f node))"
    by (rule imageI)
  then have "w + weight_factor p * w2f (weight a) \<in> set (?g (w, node))"
    by simp
  moreover from assms(2) have "set (?g (w, node)) \<subseteq> set (concat (map ?g ?nodes))"
    by (simp only: set_concat set_map) blast
  ultimately have "w + weight_factor p * w2f (weight a)
                          \<in> set (reach_scores (weight_factor p) f word ?nodes (nextstate a))"
    unfolding reach_scores_def by blast
  then have "reach_scores (weight_factor p) f word ?nodes (nextstate a) \<noteq> []" by auto
  with m have "map_of ?d (nextstate a) \<noteq> None" by simp
  then have ne: "?d \<noteq> []" by auto
  from assms(2) have nn: "?nodes \<noteq> []" by auto
  from ne have call: "call1 (score_max_func p) (map snd ?d)
                        = Inr (case score_max_func p of
                                 py_max \<Rightarrow> Max (snd ` set ?d)
                               | py_min \<Rightarrow> Min (snd ` set ?d))"
    by (cases "score_max_func p") (simp_all add: call1_py_max call1_py_min)
  have cs: "(if word \<noteq> GO_ID u \<or> skip_bos_weight p
             then call1 (score_max_func p) (map snd ?d) else Inr 0) = Inr ?c"
    by (simp add: call)
  from ne have fe: "follow_eps p ?roots = map_option Inr (follow_eps_fst (weight_factor p) f ?roots)"
    by (simp add: follow_eps_def assms(1))
  have "nfst_consume u p h word =
          (case follow_eps_fst (weight_factor p) f ?roots of
             None \<Rightarrow> None
           | Some fr \<Rightarrow>
               Some (Inr (None, p\<lparr>cur_nodes := next_ref h\<rparr>,
                          h\<lparr>cells := (cells h)(next_ref h := fr),
                            next_ref := Suc (next_ref h)\<rparr>)))"
    unfolding nfst_consume_def Let_def assms(1) option.case cs sum.case fe
    using nn by (simp add: alloc_def split: option.splits)
  with ne m nfst_unconsumed_distinct [of "weight_factor p" f word ?nodes] show ?thesis
    unfolding Let_def by blast
qed


lemmas lattice_eval = lattice_fst_def lattice_nfst_def

theorem C5_consume_renormalises_witness:
  "cur_fst (fst lattice_nfst) = Some lattice_fst
   \<and> cells (snd lattice_nfst) (cur_nodes (fst lattice_nfst)) = [(0, 1)]
   \<and> reach_scores (- 1) lattice_fst 5 [(0, 1)] 2 = [- 2, - 4]
   \<and> reach_scores (- 1) lattice_fst 5 [(0, 1)] 3 = [- 1]
   \<and> (\<exists>d :: nodes. distinct (map fst d) \<and> map_of d 2 = Some (- 2)
          \<and> map_of d 3 = Some (- 1) \<and> map_of d 4 = None)
   \<and> (\<exists>q' h'. nfst_consume example_utils (fst lattice_nfst) (snd lattice_nfst) 5
                 = Some (Inr (None, q', h'))
          \<and> cells h' (cur_nodes q') = [(- 1, 2), (0, 3)])"
proof -
  let ?a = "\<lparr>ilabel = 5, olabel = 5, weight = 2, nextstate = 2\<rparr>"
  have f: "cur_fst (fst lattice_nfst) = Some lattice_fst"
    and c: "cells (snd lattice_nfst) (cur_nodes (fst lattice_nfst)) = [(0, 1)]"
    and wf: "weight_factor (fst lattice_nfst) = - 1"
    by (simp_all add: lattice_nfst_def)
  have m: "(0, 1) \<in> set (cells (snd lattice_nfst) (cur_nodes (fst lattice_nfst)))"
    by (simp add: c)
  have a: "?a \<in> set (arcs lattice_fst 1)" and l: "olabel ?a = 5"
    by (simp_all add: lattice_fst_def)
  have r2: "reach_scores (- 1) lattice_fst 5 [(0, 1)] 2 = [- 2, - 4]"
    and r3: "reach_scores (- 1) lattice_fst 5 [(0, 1)] 3 = [- 1]"
    and r4: "reach_scores (- 1) lattice_fst 5 [(0, 1)] 4 = []"
    by (simp_all add: reach_scores_def lattice_fst_def w2f_def)
  from C5_consume_renormalises [OF f m a l, of example_utils] obtain d
    where d: "distinct (map fst d)"
      and md: "\<forall>n. map_of d n =
              (if reach_scores (- 1) lattice_fst 5 [(0, 1)] n = [] then None
               else Some (Max (set (reach_scores (- 1) lattice_fst 5 [(0, 1)] n))))"
    unfolding c wf by blast
  from md r2 have "map_of d 2 = Some (- 2)" by simp
  moreover from md r3 have "map_of d 3 = Some (- 1)" by simp
  moreover from md r4 have "map_of d 4 = None" by simp
  ultimately have e: "\<exists>d :: nodes. distinct (map fst d) \<and> map_of d 2 = Some (- 2)
                         \<and> map_of d 3 = Some (- 1) \<and> map_of d 4 = None"
    using d by blast
  have v: "\<exists>q' h'. nfst_consume example_utils (fst lattice_nfst) (snd lattice_nfst) 5
                 = Some (Inr (None, q', h'))
          \<and> cells h' (cur_nodes q') = [(- 1, 2), (0, 3)]"
    by (simp add: lattice_eval nfst_eval)
  from f c r2 r3 e v show ?thesis by blast
qed

text \<open>The claim as stated has the exception the wrong way round. With
  \<open>skip_bos_weight=true\<close> the begin-marker \<open>consume\<close> of \<open>initialize\<close> subtracts the
  best score: the frontier is \<open>[(0, 1)]\<close> although the begin arc has weight 3. With
  \<open>skip_bos_weight=false\<close> nothing is subtracted: the frontier is \<open>[(-3, 1)]\<close>.\<close>

theorem C5_consume_renormalises_counterexample:
  "(\<exists>p h p' h'.
      NondeterministicFstPredictor_init empty_store 0 True False True True = (p, h)
      \<and> skip_bos_weight p
      \<and> nfst_initialize example_utils p h (Some lattice_fst) = Some (Inr (p', h'))
      \<and> cells h' (cur_nodes p') = [(0, 1)])
   \<and> (\<exists>p h p' h'.
        NondeterministicFstPredictor_init empty_store 0 True False False True = (p, h)
        \<and> \<not> skip_bos_weight p
        \<and> nfst_initialize example_utils p h (Some lattice_fst) = Some (Inr (p', h'))
        \<and> cells h' (cur_nodes p') = [(- 3, 1)])"
  by (simp add: lattice_eval nfst_eval)

subsection \<open>Epsilon closure\<close>

lemma track_append: "track st (xs @ ys) = track (track st xs) ys"
  by (induction xs arbitrary: st) simp_all

lemma track_fst: "fst (track (v, n) xs) = keep_max v xs"
  by (induction xs arbitrary: v n) (auto split: option.splits)

lemma keep_max_ge_Some: "\<exists>y. keep_max (Some a) xs = Some y \<and> a \<le> y"
  by (simp add: keep_max_Some)

lemma keep_max_ge_elem: "x \<in> set xs \<Longrightarrow> \<exists>y. keep_max v xs = Some y \<and> x \<le> y"
proof (cases v)
  case None
  assume "x \<in> set xs"
  then show ?thesis by (auto simp: None keep_max_None)
next
  case (Some a)
  assume "x \<in> set xs"
  then show ?thesis by (simp add: Some keep_max_Some)
qed

lemma keep_max_cases: "keep_max v xs = v \<or> (\<exists>x \<in> set xs. keep_max v xs = Some x)"
proof (cases v)
  case None
  show ?thesis
  proof (cases "xs = []")
    case True
    then show ?thesis by (simp add: None)
  next
    case False
    then have "Max (set xs) \<in> set xs" by (intro Max_in) auto
    with False show ?thesis by (auto simp: None keep_max_None)
  qed
next
  case (Some a)
  have "Max (insert a (set xs)) \<in> insert a (set xs)" by (intro Max_in) auto
  then show ?thesis by (auto simp: Some keep_max_Some)
qed

lemma track_snd:
  "snd (track (v, n) xs) = (if keep_max v xs = v then n else keep_max v xs)"
proof (induction xs arbitrary: v n)
  case Nil
  show ?case by simp
next
  case (Cons x xs)
  show ?case
  proof (cases "case v of None \<Rightarrow> True | Some y \<Rightarrow> y < x")
    case True
    then have k: "keep_max v (x # xs) = keep_max (Some x) xs"
      by (auto split: option.splits)
    from keep_max_ge_Some [of x xs] obtain y where y: "keep_max (Some x) xs = Some y" "x \<le> y"
      by blast
    with True have ne: "keep_max (Some x) xs \<noteq> v" by (auto split: option.splits)
    from True have "snd (track (v, n) (x # xs)) = snd (track (Some x, Some x) xs)" by simp
    also have "\<dots> = keep_max (Some x) xs" by (simp add: Cons.IH)
    finally show ?thesis using k ne by simp
  next
    case False
    then obtain y where v: "v = Some y" "\<not> y < x" by (auto split: option.splits)
    then have k: "keep_max v (x # xs) = keep_max v xs" by simp
    from False have "snd (track (v, n) (x # xs)) = snd (track (v, n) xs)" by simp
    with k show ?thesis by (simp add: Cons.IH)
  qed
qed

lemma arc_scores_Nil [simp]: "arc_scores factor score [] n = []"
  by (simp add: arc_scores_def)

lemma arc_scores_Cons:
  "arc_scores factor score (a # as) n = arc_scores factor score [a] n @ arc_scores factor score as n"
  by (simp add: arc_scores_def)

lemma eps_scores_Nil [simp]: "eps_scores factor f [] n = []"
  by (simp add: eps_scores_def)

lemma eps_scores_Cons:
  "eps_scores factor f ((node, score) # rest) n
     = arc_scores factor score (arcs f node) n @ eps_scores factor f rest n"
  by (simp add: eps_scores_def arc_scores_def)

lemma eps_arc_track:
  assumes "eps_arc factor score a (vis, nopen, hn) = (vis', nopen', hn')"
  shows "(map_of vis' n, map_of nopen' n)
           = track (map_of vis n, map_of nopen n) (arc_scores factor score [a] n)
         \<and> hn' = (hn \<or> olabel a \<noteq> EPS_ID)
         \<and> (distinct (map fst vis) \<longrightarrow> distinct (map fst vis'))
         \<and> (distinct (map fst nopen) \<longrightarrow> distinct (map fst nopen'))"
  using assms
  by (auto simp: eps_arc_def arc_scores_def Let_def update_conv' distinct_update
           split: if_splits option.splits)

lemma eps_arcs_track:
  assumes "fold (eps_arc factor score) as (vis, nopen, hn) = (vis', nopen', hn')"
  shows "(map_of vis' n, map_of nopen' n)
           = track (map_of vis n, map_of nopen n) (arc_scores factor score as n)
         \<and> hn' = (hn \<or> (\<exists>a \<in> set as. olabel a \<noteq> EPS_ID))
         \<and> (distinct (map fst vis) \<longrightarrow> distinct (map fst vis'))
         \<and> (distinct (map fst nopen) \<longrightarrow> distinct (map fst nopen'))"
  using assms
proof (induction as arbitrary: vis nopen hn)
  case Nil
  then show ?case by simp
next
  case (Cons a as)
  obtain v1 n1 h1 where s: "eps_arc factor score a (vis, nopen, hn) = (v1, n1, h1)"
    by (cases "eps_arc factor score a (vis, nopen, hn)") auto
  with Cons.prems have r: "fold (eps_arc factor score) as (v1, n1, h1) = (vis', nopen', hn')"
    by simp
  note A = eps_arc_track [OF s, of n]
  note B = Cons.IH [OF r]
  from A B have "(map_of vis' n, map_of nopen' n)
           = track (map_of vis n, map_of nopen n) (arc_scores factor score (a # as) n)"
    by (simp add: arc_scores_Cons [of factor score a as n] track_append)
  moreover from A B have "hn' = (hn \<or> (\<exists>a \<in> set (a # as). olabel a \<noteq> EPS_ID))"
    by auto
  moreover from A B have "(distinct (map fst vis) \<longrightarrow> distinct (map fst vis'))
         \<and> (distinct (map fst nopen) \<longrightarrow> distinct (map fst nopen'))"
    by blast
  ultimately show ?case by blast
qed

lemma eps_node_track:
  assumes "eps_node factor f (node, score) (vis, nopen, d) = (vis', nopen', d')"
  shows "(map_of vis' n, map_of nopen' n)
           = track (map_of vis n, map_of nopen n) (arc_scores factor score (arcs f node) n)
         \<and> d' = (if has_noneps f node then AList.update node score d else d)
         \<and> (distinct (map fst vis) \<longrightarrow> distinct (map fst vis'))
         \<and> (distinct (map fst nopen) \<longrightarrow> distinct (map fst nopen'))"
proof -
  obtain v1 n1 h1
    where s: "fold (eps_arc factor score) (arcs f node) (vis, nopen, False) = (v1, n1, h1)"
    by (cases "fold (eps_arc factor score) (arcs f node) (vis, nopen, False)") auto
  with assms have e: "vis' = v1" "nopen' = n1" "d' = (if h1 then AList.update node score d else d)"
    by (simp_all add: eps_node_def)
  from eps_arcs_track [OF s, of n] e show ?thesis
    by (simp add: has_noneps_def)
qed

lemma eps_nodes_track:
  assumes "fold (eps_node factor f) open_nodes (vis, nopen, d) = (vis', nopen', d')"
    and "distinct (map fst open_nodes)"
  shows "(map_of vis' n, map_of nopen' n)
           = track (map_of vis n, map_of nopen n) (eps_scores factor f open_nodes n)
         \<and> map_of d' n = (if has_noneps f n \<and> map_of open_nodes n \<noteq> None
                           then map_of open_nodes n else map_of d n)
         \<and> (distinct (map fst vis) \<longrightarrow> distinct (map fst vis'))
         \<and> (distinct (map fst nopen) \<longrightarrow> distinct (map fst nopen'))
         \<and> (distinct (map fst d) \<longrightarrow> distinct (map fst d'))"
  using assms
proof (induction open_nodes arbitrary: vis nopen d)
  case Nil
  then show ?case by simp
next
  case (Cons e rest)
  obtain node score where e: "e = (node, score)" by (cases e)
  obtain v1 n1 d1 where s: "eps_node factor f (node, score) (vis, nopen, d) = (v1, n1, d1)"
    by (cases "eps_node factor f (node, score) (vis, nopen, d)") auto
  with Cons.prems(1) e have r: "fold (eps_node factor f) rest (v1, n1, d1) = (vis', nopen', d')"
    by simp
  from Cons.prems(2) e have dr: "distinct (map fst rest)" and nr: "map_of rest node = None"
    by (auto simp: map_of_eq_None_iff)
  note A = eps_node_track [OF s, of n]
  note B = Cons.IH [OF r dr]
  from A B have "(map_of vis' n, map_of nopen' n)
           = track (map_of vis n, map_of nopen n) (eps_scores factor f (e # rest) n)"
    by (simp add: e eps_scores_Cons track_append)
  moreover have "map_of d' n = (if has_noneps f n \<and> map_of (e # rest) n \<noteq> None
                           then map_of (e # rest) n else map_of d n)"
  proof (cases "n = node")
    case True
    with B nr have "map_of d' n = map_of d1 n" by simp
    with A True show ?thesis by (simp add: e update_conv')
  next
    case False
    with A have "map_of d1 n = map_of d n" by (simp add: update_conv')
    with B False show ?thesis by (auto simp: e)
  qed
  moreover from A B have "(distinct (map fst vis) \<longrightarrow> distinct (map fst vis'))
         \<and> (distinct (map fst nopen) \<longrightarrow> distinct (map fst nopen'))"
    by blast
  moreover from A B have "distinct (map fst d) \<longrightarrow> distinct (map fst d')"
    by (simp add: distinct_update)
  ultimately show ?case by blast
qed

lemma eps_level_props:
  assumes "eps_level factor f open_nodes visited d = (visited', next_open, d')"
    and "distinct (map fst open_nodes)"
  shows "map_of visited' n = keep_max (map_of visited n) (eps_scores factor f open_nodes n)
         \<and> map_of next_open n
             = (if map_of visited' n = map_of visited n then None else map_of visited' n)
         \<and> map_of d' n = (if has_noneps f n \<and> map_of open_nodes n \<noteq> None
                           then map_of open_nodes n else map_of d n)
         \<and> (distinct (map fst visited) \<longrightarrow> distinct (map fst visited'))
         \<and> distinct (map fst next_open)
         \<and> (distinct (map fst d) \<longrightarrow> distinct (map fst d'))"
proof -
  from assms(1) have "fold (eps_node factor f) open_nodes (visited, [], d) = (visited', next_open, d')"
    by (simp add: eps_level_def)
  note T = eps_nodes_track [OF this assms(2), of n]
  let ?t = "track (map_of visited n, None) (eps_scores factor f open_nodes n)"
  from T have v: "map_of visited' n = fst ?t" and o: "map_of next_open n = snd ?t"
    by (simp_all add: prod_eq_iff)
  from v have v': "map_of visited' n = keep_max (map_of visited n) (eps_scores factor f open_nodes n)"
    by (simp add: track_fst)
  from o have "map_of next_open n
      = (if keep_max (map_of visited n) (eps_scores factor f open_nodes n) = map_of visited n
         then None else keep_max (map_of visited n) (eps_scores factor f open_nodes n))"
    by (simp add: track_snd)
  with v' have o': "map_of next_open n
             = (if map_of visited' n = map_of visited n then None else map_of visited' n)"
    by simp
  from T v' o' show ?thesis by simp
qed

lemma in_arc_scores:
  "x \<in> set (arc_scores factor score as n) \<longleftrightarrow>
     (\<exists>a \<in> set as. olabel a = EPS_ID \<and> nextstate a = n \<and> x = score + factor * w2f (weight a))"
  unfolding arc_scores_def set_map set_filter by blast

lemma eps_scores_intro:
  assumes "(node, score) \<in> set open_nodes" and "a \<in> set (arcs f node)"
    and "olabel a = EPS_ID"
  shows "score + factor * w2f (weight a) \<in> set (eps_scores factor f open_nodes (nextstate a))"
  using assms(1)
proof (induction open_nodes)
  case Nil
  then show ?case by simp
next
  case (Cons e rest)
  obtain node' score' where e: "e = (node', score')" by (cases e)
  show ?case
  proof (cases "e = (node, score)")
    case True
    from assms(2,3) have "score + factor * w2f (weight a)
                            \<in> set (arc_scores factor score (arcs f node) (nextstate a))"
      unfolding in_arc_scores by blast
    with True show ?thesis by (simp add: eps_scores_Cons)
  next
    case False
    with Cons.prems have "(node, score) \<in> set rest" by simp
    from Cons.IH [OF this] show ?thesis by (simp add: e eps_scores_Cons)
  qed
qed

lemma eps_scores_elim:
  assumes "x \<in> set (eps_scores factor f open_nodes n)"
  shows "\<exists>node score a. (node, score) \<in> set open_nodes \<and> a \<in> set (arcs f node)
           \<and> olabel a = EPS_ID \<and> nextstate a = n \<and> x = score + factor * w2f (weight a)"
  using assms
proof (induction open_nodes)
  case Nil
  then show ?case by simp
next
  case (Cons e rest)
  obtain node' score' where e: "e = (node', score')" by (cases e)
  from Cons.prems have "x \<in> set (arc_scores factor score' (arcs f node') n)
                        \<or> x \<in> set (eps_scores factor f rest n)"
    by (simp add: e eps_scores_Cons)
  then show ?case
  proof
    assume "x \<in> set (arc_scores factor score' (arcs f node') n)"
    then obtain a where "a \<in> set (arcs f node')" "olabel a = EPS_ID" "nextstate a = n"
        "x = score' + factor * w2f (weight a)"
      unfolding in_arc_scores by blast
    moreover have "(node', score') \<in> set (e # rest)" by (simp add: e)
    ultimately show ?thesis by blast
  next
    assume "x \<in> set (eps_scores factor f rest n)"
    from Cons.IH [OF this] obtain node score a
      where "(node, score) \<in> set rest" "a \<in> set (arcs f node)" "olabel a = EPS_ID"
        "nextstate a = n" "x = score + factor * w2f (weight a)"
      by blast
    then have "(node, score) \<in> set (e # rest) \<and> a \<in> set (arcs f node) \<and> olabel a = EPS_ID
                 \<and> nextstate a = n \<and> x = score + factor * w2f (weight a)"
      by simp
    then show ?thesis by blast
  qed
qed

lemma eps_level_step:
  assumes lv: "eps_level factor f open_nodes visited d = (visited', next_open, d')"
    and di: "distinct (map fst open_nodes)"
  shows "eps_step factor f (map_of open_nodes) (map_of visited) (map_of d)
           (map_of visited') (map_of next_open) (map_of d')"
proof -
  note P = eps_level_props [OF lv di]
  have mem: "(x, s) \<in> set open_nodes \<longleftrightarrow> map_of open_nodes x = Some s" for x s
    using di by simp
  have a: "map_of visited' n = map_of visited n
           \<or> (\<exists>x s a. map_of open_nodes x = Some s \<and> a \<in> set (arcs f x) \<and> olabel a = EPS_ID
                 \<and> nextstate a = n \<and> map_of visited' n = Some (s + factor * w2f (weight a)))" for n
  proof -
    from P [of n]
    have v: "map_of visited' n = keep_max (map_of visited n) (eps_scores factor f open_nodes n)"
      by blast
    from keep_max_cases [of "map_of visited n" "eps_scores factor f open_nodes n"]
    show ?thesis
    proof
      assume "keep_max (map_of visited n) (eps_scores factor f open_nodes n) = map_of visited n"
      with v show ?thesis by simp
    next
      assume "\<exists>x \<in> set (eps_scores factor f open_nodes n).
                keep_max (map_of visited n) (eps_scores factor f open_nodes n) = Some x"
      then obtain y where y: "y \<in> set (eps_scores factor f open_nodes n)"
        and k: "keep_max (map_of visited n) (eps_scores factor f open_nodes n) = Some y"
        by blast
      from eps_scores_elim [OF y] obtain x s a
        where "(x, s) \<in> set open_nodes" "a \<in> set (arcs f x)" "olabel a = EPS_ID"
          "nextstate a = n" "y = s + factor * w2f (weight a)"
        by blast
      with v k mem show ?thesis by metis
    qed
  qed
  have b: "\<exists>v'. map_of visited' n = Some v' \<and> v \<le> v'" if "map_of visited n = Some v" for n v
    using P [of n] keep_max_ge_Some [of v "eps_scores factor f open_nodes n"] that by simp
  have c: "\<exists>v'. map_of visited' (nextstate a) = Some v' \<and> s + factor * w2f (weight a) \<le> v'"
    if "map_of open_nodes x = Some s" "a \<in> set (arcs f x)" "olabel a = EPS_ID" for x s a
  proof -
    from that(1) mem have "(x, s) \<in> set open_nodes" by simp
    from eps_scores_intro [OF this that(2,3)]
    have "s + factor * w2f (weight a) \<in> set (eps_scores factor f open_nodes (nextstate a))" .
    from keep_max_ge_elem [OF this, of "map_of visited (nextstate a)"] P [of "nextstate a"]
    show ?thesis by simp
  qed
  have d: "map_of next_open n
             = (if map_of visited' n = map_of visited n then None else map_of visited' n)" for n
    using P [of n] by blast
  have e: "map_of d' n = (if has_noneps f n \<and> map_of open_nodes n \<noteq> None
                           then map_of open_nodes n else map_of d n)" for n
    using P [of n] by blast
  show ?thesis
    unfolding eps_step_def using a b c d e by blast
qed

lemma eps_step_unchanged:
  assumes S: "eps_step factor f opn vis dn vis' nxt dn'" and n: "nxt x = None"
  shows "vis' x = vis x"
proof (cases "vis x")
  case None
  from S have "nxt x = (if vis' x = vis x then None else vis' x)"
    unfolding eps_step_def by blast
  with n None show ?thesis by (auto split: if_splits)
next
  case (Some v)
  from S Some obtain v' where v': "vis' x = Some v'"
    unfolding eps_step_def by blast
  from S have "nxt x = (if vis' x = vis x then None else vis' x)"
    unfolding eps_step_def by blast
  with n v' show ?thesis by (auto split: if_splits)
qed

lemma eps_step_next:
  assumes S: "eps_step factor f opn vis dn vis' nxt dn'" and n: "nxt x = Some s"
  shows "vis' x = Some s" and "vis' x \<noteq> vis x"
proof -
  from S have e: "nxt x = (if vis' x = vis x then None else vis' x)"
    unfolding eps_step_def by blast
  with n show "vis' x = Some s" by (auto split: if_splits)
  from e n show "vis' x \<noteq> vis x" by (auto split: if_splits)
qed

lemma eps_step_mono:
  assumes S: "eps_step factor f opn vis dn vis' nxt dn'" and v: "vis x = Some v"
  shows "\<exists>v'. vis' x = Some v' \<and> v \<le> v'"
  using S v unfolding eps_step_def by blast

lemma eps_step_relaxed:
  assumes S: "eps_step factor f opn vis dn vis' nxt dn'"
    and "opn x = Some s" "a \<in> set (arcs f x)" "olabel a = EPS_ID"
  shows "\<exists>v'. vis' (nextstate a) = Some v' \<and> s + factor * w2f (weight a) \<le> v'"
  using assms unfolding eps_step_def by blast

lemma eps_step_origin:
  assumes S: "eps_step factor f opn vis dn vis' nxt dn'" and "vis' n \<noteq> vis n"
  shows "\<exists>x s a. opn x = Some s \<and> a \<in> set (arcs f x) \<and> olabel a = EPS_ID
           \<and> nextstate a = n \<and> vis' n = Some (s + factor * w2f (weight a))"
  using assms unfolding eps_step_def by blast

lemma eps_step_d:
  assumes S: "eps_step factor f opn vis dn vis' nxt dn'"
  shows "dn' x = (if has_noneps f x \<and> opn x \<noteq> None then opn x else dn x)"
  using S unfolding eps_step_def by blast

lemma eps_inv_step:
  assumes I: "eps_inv factor f opn vis dn" and S: "eps_step factor f opn vis dn vis' nxt dn'"
  shows "eps_inv factor f nxt vis' dn'"
proof -
  from I have I1: "opn x = Some s \<Longrightarrow> vis x = Some s" for x s
    unfolding eps_inv_def by blast
  from I have I2: "vis x = Some vx \<Longrightarrow> opn x = None \<Longrightarrow> a \<in> set (arcs f x) \<Longrightarrow> olabel a = EPS_ID
        \<Longrightarrow> \<exists>vy. vis (nextstate a) = Some vy \<and> vx + factor * w2f (weight a) \<le> vy" for x vx a
    unfolding eps_inv_def by blast
  from I have I3: "opn x = None \<Longrightarrow> dn x = (if has_noneps f x then vis x else None)" for x
    unfolding eps_inv_def by blast
  from I have I4: "dn x \<noteq> None \<Longrightarrow> has_noneps f x \<and> vis x \<noteq> None" for x
    unfolding eps_inv_def by blast
  have c1: "vis' x = Some s" if "nxt x = Some s" for x s
    using eps_step_next(1) [OF S that] .
  have c2: "\<exists>vy. vis' (nextstate a) = Some vy \<and> vx + factor * w2f (weight a) \<le> vy"
    if v: "vis' x = Some vx" and n: "nxt x = None" and a: "a \<in> set (arcs f x)" "olabel a = EPS_ID"
    for x vx a
  proof -
    from eps_step_unchanged [OF S n] v have vx: "vis x = Some vx" by simp
    show ?thesis
    proof (cases "opn x")
      case (Some s)
      from I1 [OF Some] vx have "s = vx" by simp
      with eps_step_relaxed [OF S Some a] show ?thesis by simp
    next
      case None
      from I2 [OF vx None a] obtain vy
        where vy: "vis (nextstate a) = Some vy" "vx + factor * w2f (weight a) \<le> vy"
        by blast
      from eps_step_mono [OF S vy(1)] obtain v'
        where "vis' (nextstate a) = Some v'" "vy \<le> v'"
        by blast
      with vy(2) show ?thesis by auto
    qed
  qed
  have c3: "dn' x = (if has_noneps f x then vis' x else None)" if n: "nxt x = None" for x
  proof -
    note u = eps_step_unchanged [OF S n]
    note d = eps_step_d [OF S, of x]
    show ?thesis
    proof (cases "has_noneps f x")
      case True
      show ?thesis
      proof (cases "opn x")
        case (Some s)
        with I1 [OF Some] d True u show ?thesis by simp
      next
        case None
        with I3 [OF None] d True u show ?thesis by simp
      qed
    next
      case False
      with I4 [of x] have "dn x = None" by blast
      with d False show ?thesis by simp
    qed
  qed
  have c4: "has_noneps f x \<and> vis' x \<noteq> None" if n: "dn' x \<noteq> None" for x
  proof -
    note d = eps_step_d [OF S, of x]
    show ?thesis
    proof (cases "has_noneps f x \<and> opn x \<noteq> None")
      case True
      then obtain s where s: "opn x = Some s" by blast
      from eps_step_mono [OF S I1 [OF s]] True show ?thesis by auto
    next
      case False
      with d n have "dn x \<noteq> None" by (auto split: if_splits)
      from I4 [OF this] obtain v where "has_noneps f x" "vis x = Some v" by blast
      with eps_step_mono [OF S this(2)] show ?thesis by auto
    qed
  qed
  show ?thesis
    unfolding eps_inv_def using c1 c2 c3 c4 by blast
qed

lemma eps_inv_init: "eps_inv factor f roots roots Map.empty"
  unfolding eps_inv_def
proof (intro conjI allI impI)
  fix x s assume "roots x = Some s"
  then show "roots x = Some s" .
next
  fix x vx a
  assume "roots x = Some vx \<and> roots x = None \<and> a \<in> set (arcs f x) \<and> olabel a = EPS_ID"
  then have "roots x = Some vx" and "roots x = None" by blast+
  then have False by simp
  then show "\<exists>vy. roots (nextstate a) = Some vy \<and> vx + factor * w2f (weight a) \<le> vy" ..
next
  fix x assume "roots x = None"
  then show "Map.empty x = (if has_noneps f x then roots x else None)" by simp
next
  fix x assume "(Map.empty :: int \<rightharpoonup> real) x \<noteq> None"
  then show "has_noneps f x" by simp
next
  fix x assume "(Map.empty :: int \<rightharpoonup> real) x \<noteq> None"
  then show "roots x \<noteq> None" by simp
qed

lemma eps_inv_done:
  assumes "eps_inv factor f Map.empty vis dn"
  shows "eps_closed factor f vis" and "frontier_of f vis dn"
proof -
  note I = assms [unfolded eps_inv_def]
  note B = conjunct1 [OF conjunct2 [OF I]]
  note C = conjunct1 [OF conjunct2 [OF conjunct2 [OF I]]]
  show "eps_closed factor f vis"
    unfolding eps_closed_def
  proof (intro allI impI)
    fix x vx a
    assume h: "vis x = Some vx \<and> a \<in> set (arcs f x) \<and> olabel a = EPS_ID"
    then have "vis x = Some vx \<and> (Map.empty :: int \<rightharpoonup> real) x = None
                 \<and> a \<in> set (arcs f x) \<and> olabel a = EPS_ID"
      by simp
    with B show "\<exists>vy. vis (nextstate a) = Some vy \<and> vx + factor * w2f (weight a) \<le> vy"
      by blast
  qed
  show "frontier_of f vis dn"
    unfolding frontier_of_def
  proof
    fix x
    have "(Map.empty :: int \<rightharpoonup> real) x = None" by simp
    with C show "dn x = (if has_noneps f x then vis x else None)" by blast
  qed
qed

lemma eps_while_closed:
  assumes run: "eps_while factor f open_nodes visited d = Some r"
    and di: "distinct (map fst open_nodes)" "distinct (map fst visited)" "distinct (map fst d)"
    and inv: "eps_inv factor f (map_of open_nodes) (map_of visited) (map_of d)"
  shows "\<exists>vf. eps_closed factor f vf \<and> frontier_of f vf (map_of r)
              \<and> finite (dom vf) \<and> distinct (map fst r)"
proof -
  let ?P = "\<lambda>(factor :: real) (f :: Fst) (open_nodes :: nodes) (visited :: nodes) (d :: nodes)
              (r :: nodes).
              distinct (map fst open_nodes) \<longrightarrow> distinct (map fst visited)
              \<longrightarrow> distinct (map fst d)
              \<longrightarrow> eps_inv factor f (map_of open_nodes) (map_of visited) (map_of d)
              \<longrightarrow> (\<exists>vf. eps_closed factor f vf \<and> frontier_of f vf (map_of r)
                        \<and> finite (dom vf) \<and> distinct (map fst r))"
  have "?P factor f open_nodes visited d r"
  proof (rule eps_while.raw_induct [where P = ?P, OF _ run])
    fix loop :: "real \<Rightarrow> Fst \<Rightarrow> nodes \<Rightarrow> nodes \<Rightarrow> nodes \<Rightarrow> nodes option"
    fix factor f open_nodes visited d r
    assume IH: "\<And>f open_nodes visited d b y.
                  loop f open_nodes visited d b = Some y \<Longrightarrow> ?P f open_nodes visited d b y"
      and eq: "(if open_nodes = [] then Some d
                else case eps_level factor f open_nodes visited d of
                       (visited', next_open, d') \<Rightarrow> loop factor f next_open visited' d')
               = Some r"
    show "?P factor f open_nodes visited d r"
    proof (intro impI)
      assume di: "distinct (map fst open_nodes)" "distinct (map fst visited)"
          "distinct (map fst d)"
        and inv: "eps_inv factor f (map_of open_nodes) (map_of visited) (map_of d)"
      show "\<exists>vf. eps_closed factor f vf \<and> frontier_of f vf (map_of r)
                   \<and> finite (dom vf) \<and> distinct (map fst r)"
      proof (cases "open_nodes = []")
        case True
        with eq have r: "r = d" by simp
        from inv True have "eps_inv factor f Map.empty (map_of visited) (map_of d)" by simp
        from eps_inv_done [OF this] di(3) r show ?thesis
          using finite_dom_map_of [of visited] by blast
      next
        case False
        obtain v' n' d' where lv: "eps_level factor f open_nodes visited d = (v', n', d')"
          by (cases "eps_level factor f open_nodes visited d") auto
        with eq False have rec: "loop factor f n' v' d' = Some r" by simp
        note P = eps_level_props [OF lv di(1), of 0]
        from P di have di': "distinct (map fst n')" "distinct (map fst v')"
            "distinct (map fst d')"
          by blast+
        from eps_inv_step [OF inv eps_level_step [OF lv di(1)]]
        have "eps_inv factor f (map_of n') (map_of v') (map_of d')" .
        with IH [OF rec] di' show ?thesis by blast
      qed
    qed
  qed
  with di inv show ?thesis by blast
qed

lemma eps_inv2_init:
  assumes F: "frontier_of f vf df"
  shows "eps_inv2 vf df df df Map.empty"
proof -
  have j1: "\<exists>v. vf x = Some v \<and> s \<le> v" if "df x = Some s" for x s
  proof -
    from F have "df x = (if has_noneps f x then vf x else None)"
      unfolding frontier_of_def by blast
    with that have "vf x = Some s" by (auto split: if_splits)
    then show ?thesis by simp
  qed
  show ?thesis
    unfolding eps_inv2_def
  proof (intro conjI allI impI)
    fix x s assume "df x = Some s"
    then show "\<exists>v. vf x = Some v \<and> s \<le> v" by (rule j1)
  next
    fix x assume "df x \<noteq> None"
    show "df x = df x" ..
  next
    fix x s assume "df x = Some s"
    then show "df x = Some s" .
  next
    fix x
    show "Map.empty x = (if df x \<noteq> None then None else df x)" by simp
  next
    fix x assume "df x \<noteq> None \<and> df x \<noteq> None"
    show "df x = df x" ..
  qed
qed

lemma eps_inv2_step:
  assumes C: "eps_closed factor f vf" and F: "frontier_of f vf df"
    and J: "eps_inv2 vf df opn vis dn"
    and S: "eps_step factor f opn vis dn vis' nxt dn'"
  shows "eps_inv2 vf df nxt vis' dn'"
proof -
  from J have J1: "vis x = Some s \<Longrightarrow> \<exists>v. vf x = Some v \<and> s \<le> v" for x s
    unfolding eps_inv2_def by blast
  from J have J2: "df x \<noteq> None \<Longrightarrow> vis x = df x" for x
    unfolding eps_inv2_def by blast
  from J have J3: "opn x = Some s \<Longrightarrow> vis x = Some s" for x s
    unfolding eps_inv2_def by blast
  from J have J4: "dn x = (if opn x \<noteq> None then None else df x)" for x
    unfolding eps_inv2_def by blast
  from J have J5: "opn x \<noteq> None \<Longrightarrow> df x \<noteq> None \<Longrightarrow> opn x = df x" for x
    unfolding eps_inv2_def by blast
  from F have F': "df x = (if has_noneps f x then vf x else None)" for x
    unfolding frontier_of_def by blast
  from C have C': "vf x = Some vx \<Longrightarrow> a \<in> set (arcs f x) \<Longrightarrow> olabel a = EPS_ID
        \<Longrightarrow> \<exists>vy. vf (nextstate a) = Some vy \<and> vx + factor * w2f (weight a) \<le> vy" for x vx a
    unfolding eps_closed_def by blast
  have c1: "\<exists>v. vf x = Some v \<and> s' \<le> v" if v: "vis' x = Some s'" for x s'
  proof (cases "vis' x = vis x")
    case True
    with v J1 [of x s'] show ?thesis by simp
  next
    case False
    from eps_step_origin [OF S False] obtain y s a
      where o: "opn y = Some s" and a: "a \<in> set (arcs f y)" "olabel a = EPS_ID"
        "nextstate a = x" and e: "vis' x = Some (s + factor * w2f (weight a))"
      by blast
    from J1 [OF J3 [OF o]] obtain vy where vy: "vf y = Some vy" "s \<le> vy" by blast
    from C' [OF vy(1) a(1,2)] a(3) obtain vx
      where vx: "vf x = Some vx" "vy + factor * w2f (weight a) \<le> vx"
      by auto
    from e v have "s' = s + factor * w2f (weight a)" by simp
    with vy(2) vx show ?thesis by auto
  qed
  have c2: "vis' x = df x" if d: "df x \<noteq> None" for x
  proof -
    from d obtain v where v: "df x = Some v" by blast
    with J2 [OF d] have vx: "vis x = Some v" by simp
    from eps_step_mono [OF S vx] obtain v' where v': "vis' x = Some v'" "v \<le> v'" by blast
    from c1 [OF v'(1)] obtain w where w: "vf x = Some w" "v' \<le> w" by blast
    from F' [of x] v have "vf x = Some v" by (auto split: if_splits)
    with w have "v' \<le> v" by simp
    with v' v show ?thesis by simp
  qed
  have k: "df x = None" if n: "nxt x \<noteq> None" for x
  proof (rule ccontr)
    assume d: "df x \<noteq> None"
    from n obtain s where "nxt x = Some s" by blast
    from eps_step_next(2) [OF S this] c2 [OF d] J2 [OF d] show False by simp
  qed
  have c3: "vis' x = Some s" if "nxt x = Some s" for x s
    using eps_step_next(1) [OF S that] .
  have c4: "dn' x = (if nxt x \<noteq> None then None else df x)" for x
  proof -
    note d = eps_step_d [OF S, of x]
    show ?thesis
    proof (cases "has_noneps f x \<and> opn x \<noteq> None")
      case True
      then obtain s where s: "opn x = Some s" by blast
      from J1 [OF J3 [OF s]] obtain v where v: "vf x = Some v" by blast
      with F' [of x] True have dx: "df x \<noteq> None" by simp
      with k [of x] have nx: "nxt x = None" by blast
      from J5 [of x] s dx have "opn x = df x" by simp
      with d True nx show ?thesis by simp
    next
      case False
      with d have e: "dn' x = dn x" by (auto split: if_splits)
      show ?thesis
      proof (cases "opn x")
        case None
        with e J4 [of x] have "dn' x = df x" by simp
        with k [of x] show ?thesis by auto
      next
        case (Some s)
        with False have "\<not> has_noneps f x" by simp
        with F' [of x] have "df x = None" by simp
        with e J4 [of x] Some show ?thesis by simp
      qed
    qed
  qed
  have c5: "nxt x = df x" if "nxt x \<noteq> None \<and> df x \<noteq> None" for x
    using that k [of x] by simp
  show ?thesis
    unfolding eps_inv2_def using c1 c2 c3 c4 c5 by blast
qed

lemma eps_inv2_done:
  assumes "eps_inv2 vf df Map.empty vis dn"
  shows "dn = df"
proof
  fix x
  from assms have "dn x = (if (Map.empty :: int \<rightharpoonup> real) x \<noteq> None then None else df x)"
    unfolding eps_inv2_def by blast
  then show "dn x = df x" by simp
qed

lemma settled_grows:
  assumes C: "eps_closed factor f vf" and F: "frontier_of f vf df"
    and J: "eps_inv2 vf df opn vis dn"
    and S: "eps_step factor f opn vis dn vis' nxt dn'"
    and fo: "finite (dom opn)" and fn: "finite (dom nxt)" and ne: "dom nxt \<noteq> {}"
  shows "settled vf opn vis \<subset> settled vf nxt vis'" and "settled vf nxt vis' \<subseteq> dom vf"
proof -
  let ?m = "Min (deficit vf opn ` dom opn)"
  let ?m' = "Min (deficit vf nxt ` dom nxt)"
  note J' = eps_inv2_step [OF C F J S]
  from J have J1: "vis x = Some s \<Longrightarrow> \<exists>v. vf x = Some v \<and> s \<le> v" for x s
    unfolding eps_inv2_def by blast
  from J have J3: "opn x = Some s \<Longrightarrow> vis x = Some s" for x s
    unfolding eps_inv2_def by blast
  from J' have J1': "vis' x = Some s \<Longrightarrow> \<exists>v. vf x = Some v \<and> s \<le> v" for x s
    unfolding eps_inv2_def by blast
  from C have C': "vf x = Some vx \<Longrightarrow> a \<in> set (arcs f x) \<Longrightarrow> olabel a = EPS_ID
        \<Longrightarrow> \<exists>vy. vf (nextstate a) = Some vy \<and> vx + factor * w2f (weight a) \<le> vy" for x vx a
    unfolding eps_closed_def by blast
  have A: "?m \<le> deficit vf nxt y" if y: "nxt y = Some s'" for y s'
  proof -
    note n = eps_step_next [OF S y]
    from eps_step_origin [OF S n(2)] obtain x s a
      where o: "opn x = Some s" and a: "a \<in> set (arcs f x)" "olabel a = EPS_ID"
        "nextstate a = y" and e: "vis' y = Some (s + factor * w2f (weight a))"
      by blast
    from e n(1) have s': "s' = s + factor * w2f (weight a)" by simp
    from J1 [OF J3 [OF o]] obtain vx where vx: "vf x = Some vx" by blast
    from C' [OF vx a(1,2)] a(3) obtain vy
      where vy: "vf y = Some vy" "vx + factor * w2f (weight a) \<le> vy"
      by auto
    from o have "x \<in> dom opn" by blast
    with fo have "?m \<le> deficit vf opn x" by simp
    also from vx o have "\<dots> = vx - s" by (simp add: deficit_def)
    also from vy(2) s' have "\<dots> \<le> vy - s'" by simp
    also from vy(1) y have "\<dots> = deficit vf nxt y" by (simp add: deficit_def)
    finally show ?thesis .
  qed
  have B: "?m \<le> ?m'"
  proof -
    have "\<forall>z \<in> deficit vf nxt ` dom nxt. ?m \<le> z"
      using A by (auto simp: dom_def)
    with fn ne show ?thesis by simp
  qed
  have Cc: "vis' x = vis x" if x: "x \<in> settled vf opn vis" for x
  proof (rule ccontr)
    assume neq: "vis' x \<noteq> vis x"
    from x obtain v where v: "vis x = Some v" and dv: "deficit vf vis x \<le> ?m"
      by (auto simp: settled_def)
    from eps_step_mono [OF S v] obtain v' where v': "vis' x = Some v'" "v \<le> v'" by blast
    with neq v have lt: "v < v'" by simp
    from S neq v' have "nxt x = Some v'"
      unfolding eps_step_def by simp
    from A [OF this] this have "?m \<le> the (vf x) - v'" by (simp add: deficit_def)
    moreover from dv v have "the (vf x) - v \<le> ?m" by (simp add: deficit_def)
    ultimately show False using lt by simp
  qed
  have D: "settled vf opn vis \<subseteq> settled vf nxt vis'"
  proof
    fix x assume x: "x \<in> settled vf opn vis"
    then obtain v where v: "vis x = Some v" and dv: "deficit vf vis x \<le> ?m"
      by (auto simp: settled_def)
    from Cc [OF x] v have "vis' x = Some v" by simp
    moreover from Cc [OF x] have "deficit vf vis' x = deficit vf vis x"
      by (simp add: deficit_def)
    ultimately show "x \<in> settled vf nxt vis'"
      using dv B by (auto simp: settled_def)
  qed
  from fn ne have "?m' \<in> deficit vf nxt ` dom nxt" by (intro Min_in) auto
  then obtain z where z: "z \<in> dom nxt" "deficit vf nxt z = ?m'"
    unfolding image_iff by metis
  then obtain s where s: "nxt z = Some s" by blast
  note n = eps_step_next [OF S s]
  from n(1) s have "deficit vf vis' z = deficit vf nxt z" by (simp add: deficit_def)
  with z(2) n(1) have zin: "z \<in> settled vf nxt vis'" by (auto simp: settled_def)
  from n(2) Cc [of z] have zout: "z \<notin> settled vf opn vis" by blast
  from D zin zout show "settled vf opn vis \<subset> settled vf nxt vis'" by blast
  show "settled vf nxt vis' \<subseteq> dom vf"
  proof
    fix x assume "x \<in> settled vf nxt vis'"
    then obtain v where "vis' x = Some v" by (auto simp: settled_def)
    from J1' [OF this] show "x \<in> dom vf" by blast
  qed
qed

lemma eps_while_Nil: "eps_while factor f [] visited d = Some d"
  by (subst eps_while.simps) simp

lemma eps_while_level:
  assumes "open_nodes \<noteq> []"
    and "eps_level factor f open_nodes visited d = (visited', next_open, d')"
  shows "eps_while factor f open_nodes visited d = eps_while factor f next_open visited' d'"
  using assms by (subst eps_while.simps) simp

lemma reclose_returns:
  assumes C: "eps_closed factor f vf" and F: "frontier_of f vf df" and fin: "finite (dom vf)"
  shows "eps_inv2 vf df (map_of open_nodes) (map_of visited) (map_of d)
         \<Longrightarrow> distinct (map fst open_nodes) \<Longrightarrow> distinct (map fst d)
         \<Longrightarrow> \<exists>r. eps_while factor f open_nodes visited d = Some r
                  \<and> map_of r = df \<and> distinct (map fst r)"
proof (induction "card (dom vf - settled vf (map_of open_nodes) (map_of visited))"
         arbitrary: open_nodes visited d rule: less_induct)
  case less
  note J = less.prems(1) and di = less.prems(2,3)
  show ?case
  proof (cases "open_nodes = []")
    case True
    with J have "eps_inv2 vf df Map.empty (map_of visited) (map_of d)" by simp
    from eps_inv2_done [OF this] di(2) True show ?thesis
      by (simp add: eps_while_Nil)
  next
    case False
    obtain v' n' d' where lv: "eps_level factor f open_nodes visited d = (v', n', d')"
      by (cases "eps_level factor f open_nodes visited d") auto
    note S = eps_level_step [OF lv di(1)]
    note J' = eps_inv2_step [OF C F J S]
    note P = eps_level_props [OF lv di(1), of 0]
    from P di have di': "distinct (map fst n')" "distinct (map fst d')" by blast+
    note unf = eps_while_level [OF False lv]
    show ?thesis
    proof (cases "n' = []")
      case True
      with J' have "eps_inv2 vf df Map.empty (map_of v') (map_of d')" by simp
      from eps_inv2_done [OF this] di'(2) True unf show ?thesis
        by (simp add: eps_while_Nil)
    next
      case n'ne: False
      then obtain e rest where "n' = e # rest" by (cases n') auto
      then have ne: "dom (map_of n') \<noteq> {}" by (cases e) auto
      have fo: "finite (dom (map_of open_nodes))" and fn: "finite (dom (map_of n'))"
        by (rule finite_dom_map_of)+
      note G = settled_grows [OF C F J S fo fn ne]
      let ?s = "settled vf (map_of open_nodes) (map_of visited)"
      let ?s' = "settled vf (map_of n') (map_of v')"
      from G(1) obtain z where z: "z \<in> ?s'" "z \<notin> ?s" by blast
      with G(2) have "z \<in> dom vf - ?s" "z \<notin> dom vf - ?s'" by blast+
      moreover from G(1) have "dom vf - ?s' \<subseteq> dom vf - ?s" by blast
      ultimately have "dom vf - ?s' \<subset> dom vf - ?s" by blast
      moreover from fin have "finite (dom vf - ?s)" by simp
      ultimately have "card (dom vf - ?s') < card (dom vf - ?s)"
        by (rule psubset_card_mono [rotated])
      from less.hyps [OF this J' di'] unf show ?thesis by simp
    qed
  qed
qed

lemma follow_eps_fst_idempotent:
  assumes di: "distinct (map fst roots)"
    and run: "follow_eps_fst factor f roots = Some out"
  shows "\<exists>out'. follow_eps_fst factor f (map (\<lambda>(w, node). (node, w)) out) = Some out'
                \<and> set out' = set out"
proof -
  from run obtain r where r: "eps_while factor f roots roots [] = Some r"
    and out: "out = map (\<lambda>(node, w). (w, node)) r"
    by (auto simp: follow_eps_fst_def)
  have "eps_inv factor f (map_of roots) (map_of roots) (map_of [])"
    using eps_inv_init [of factor f "map_of roots"] by simp
  from eps_while_closed [OF r di di _ this] obtain vf
    where C: "eps_closed factor f vf" and F: "frontier_of f vf (map_of r)"
      and fin: "finite (dom vf)" and dr: "distinct (map fst r)"
    by auto
  have swap_out: "map (\<lambda>(w, node). (node, w)) out = r"
    by (simp add: out case_prod_unfold comp_def)
  from eps_inv2_init [OF F] have "eps_inv2 vf (map_of r) (map_of r) (map_of r) (map_of [])"
    by simp
  from reclose_returns [OF C F fin this dr] obtain r'
    where r': "eps_while factor f r r [] = Some r'" "map_of r' = map_of r"
      "distinct (map fst r')"
    by auto
  from r'(2,3) dr have "set r' = set r"
    by (simp add: map_of_inject_set)
  then have "set (map (\<lambda>(node, w). (w, node)) r') = set out"
    by (simp add: out)
  with r'(1) swap_out show ?thesis
    by (simp add: follow_eps_fst_def)
qed

text \<open>C9. Epsilon closure is idempotent: when \<open>_follow_eps\<close> returns a frontier for a
  dictionary of roots, \<open>_follow_eps\<close> applied to that frontier (read back as a
  dictionary from state to score) returns too, and returns the same set of
  (score, state) pairs.\<close>

theorem C9_follow_eps_idempotent:
  assumes "distinct (map fst roots)"
    and "follow_eps p roots = Some (Inr out)"
  shows "\<exists>out'. follow_eps p (map (\<lambda>(w, node). (node, w)) out) = Some (Inr out')
                \<and> set out' = set out"
proof (cases "roots = []")
  case True
  with assms(2) have "out = []" by (simp add: follow_eps_def)
  then show ?thesis by (simp add: follow_eps_def)
next
  case False
  with assms(2) obtain f where f: "cur_fst p = Some f"
    by (cases "cur_fst p") (auto simp: follow_eps_def)
  with assms(2) False have "follow_eps_fst (weight_factor p) f roots = Some out"
    by (auto simp: follow_eps_def)
  from follow_eps_fst_idempotent [OF assms(1) this] obtain out'
    where o: "follow_eps_fst (weight_factor p) f (map (\<lambda>(w, node). (node, w)) out) = Some out'"
      and s: "set out' = set out"
    by blast
  show ?thesis
  proof (cases "out = []")
    case True
    then show ?thesis by (simp add: follow_eps_def)
  next
    case False
    with f o s show ?thesis by (simp add: follow_eps_def)
  qed
qed

theorem C9_follow_eps_witness:
  "distinct (map fst [(3 :: int, 0 :: real)])
   \<and> follow_eps (fst lattice_nfst) [(3, 0)] = Some (Inr [(0, 3), (- 1, 2)])
   \<and> (\<exists>out'. follow_eps (fst lattice_nfst) [(3, 0), (2, - 1)] = Some (Inr out')
            \<and> set out' = {(0, 3), (- 1, 2)})"
proof -
  have d: "distinct (map fst [(3 :: int, 0 :: real)])" by simp
  have r: "follow_eps (fst lattice_nfst) [(3, 0)] = Some (Inr [(0, 3), (- 1, 2)])"
    by (simp add: lattice_eval nfst_eval Let_def)
  from C9_follow_eps_idempotent [OF d r] d r show ?thesis by simp
qed

end
